theory Spec2Isabelle
  imports
    Main
    "HOL-Library.Word"
    "HOL-Library.Multiset"
    "HOL-Library.Char_ord"
    "HOL-Library.List_Lexorder"
begin

section \<open>Machine types and the string operations the tools call\<close>

text \<open>
  \<open>std::string::size_type\<close> is a 64-bit unsigned integer and \<open>int\<close> a 32-bit
  two's complement integer (read through \<open>sint\<close>). The conversions the source performs
  implicitly are written out: \<open>ucast\<close> for \<open>size_t\<close> to \<open>int\<close> (truncation),
  \<open>scast\<close> for \<open>int\<close> to \<open>size_t\<close> (sign extension). Signed overflow is undefined
  in C++; the model wraps, as the usual two's complement targets do.
\<close>

type_synonym size_t = "64 word"
type_synonym cint = "32 word"

definition npos :: size_t where
  "npos = - 1"

definition newline :: char where
  "newline = CHR 0x0A"

definition comma :: char where
  "comma = CHR '',''"

text \<open>An uncaught \<open>std::out_of_range\<close> ends the program before anything is written.\<close>

datatype error = Out_of_range

definition string_size :: "string \<Rightarrow> size_t" where
  "string_size s = of_nat (length s)"

text \<open>\<open>s.find_first_of(c)\<close>: the index of the first \<open>c\<close>, or \<open>npos\<close>.\<close>

definition find_first_of :: "string \<Rightarrow> char \<Rightarrow> size_t" where
  "find_first_of s c =
     (if c \<in> set s then of_nat (length (takeWhile (\<lambda>x. x \<noteq> c) s)) else npos)"

text \<open>
  \<open>s.substr(pos, n)\<close>: throws when \<open>pos > size()\<close>, otherwise the characters
  from \<open>pos\<close> on, at most \<open>n\<close> of them.
\<close>

definition substr :: "string \<Rightarrow> size_t \<Rightarrow> size_t \<Rightarrow> error + string" where
  "substr s pos n =
     (if string_size s < pos then Inl Out_of_range
      else Inr (take (unat n) (drop (unat pos) s)))"

section \<open>get\_address\_freq.cpp\<close>

subsection \<open>The two helper functions\<close>

definition get_first_address :: "string \<Rightarrow> error + string" where
  "get_first_address data_line = substr data_line 0 (find_first_of data_line comma)"

definition get_second_address :: "string \<Rightarrow> error + string" where
  "get_second_address data_line =
     (let pos = (ucast (find_first_of data_line comma) :: cint)
      in substr data_line (scast (pos + 1)) (string_size data_line - scast pos - 1))"

subsection \<open>The input stream\<close>

text \<open>
  An open \<open>ifstream\<close>: the characters not yet read and the two state bits the program
  can reach (read errors of the device are not modelled).
\<close>

record ifstream =
  unread :: string
  eofbit :: bool
  failbit :: bool

definition open_stream :: "string \<Rightarrow> ifstream" where
  "open_stream content = \<lparr>unread = content, eofbit = False, failbit = False\<rparr>"

text \<open>
  \<open>getline(fin, s)\<close>. On a stream that is not good the sentry fails: \<open>failbit\<close> is set
  and \<open>s\<close> keeps its value. Otherwise \<open>s\<close> is erased and characters are taken up to
  the next newline, which is consumed and not stored; running into the end of the input
  sets \<open>eofbit\<close>, and also \<open>failbit\<close> when nothing at all was extracted.
\<close>

definition getline :: "ifstream \<Rightarrow> string \<Rightarrow> ifstream \<times> string" where
  "getline fin s =
     (if eofbit fin \<or> failbit fin then (fin\<lparr>failbit := True\<rparr>, s)
      else
        (let line = takeWhile (\<lambda>c. c \<noteq> newline) (unread fin)
         in case dropWhile (\<lambda>c. c \<noteq> newline) (unread fin) of
              [] \<Rightarrow> (fin\<lparr>unread := [], eofbit := True, failbit := (line = [])\<rparr>, line)
            | _ # after \<Rightarrow> (fin\<lparr>unread := after\<rparr>, line)))"

subsection \<open>The frequency table\<close>

text \<open>
  \<open>unordered_map<string, int>\<close> as an association list with one entry per key, kept in
  order of first insertion. The order in which the container is traversed is not this
  order: it is a parameter of the output stage below.
\<close>

type_synonym table = "(string \<times> cint) list"

text \<open>\<open>address_map[k]++\<close>: an absent key is inserted with value 0 first.\<close>

fun subscript_incr :: "string \<Rightarrow> table \<Rightarrow> table" where
  "subscript_incr k [] = [(k, 0 + 1)]"
| "subscript_incr k ((k', c) # m) =
     (if k' = k then (k', c + 1) # m else (k', c) # subscript_incr k m)"

subsection \<open>The loop body (lines 25 to 27)\<close>

definition line_pos :: "string \<Rightarrow> cint" where
  "line_pos s = ucast (find_first_of s comma)"

definition first_field :: "string \<Rightarrow> error + string" where
  "first_field s = substr s 0 (scast (line_pos s))"

definition second_field :: "string \<Rightarrow> error + string" where
  "second_field s =
     substr s (scast (line_pos s + 1)) (string_size s - scast (line_pos s) - 1)"

definition process_line :: "string \<Rightarrow> table \<Rightarrow> error + table" where
  "process_line s address_map =
     (case first_field s of
        Inl e \<Rightarrow> Inl e
      | Inr a \<Rightarrow>
          (let m1 = subscript_incr a address_map
           in case second_field s of
                Inl e \<Rightarrow> Inl e
              | Inr b \<Rightarrow> Inr (subscript_incr b m1)))"

subsection \<open>The read loop (lines 23 to 28)\<close>

text \<open>
  \<open>while (!fin.eof()) { getline(fin, s); ... }\<close>. The loop need not end on every
  stream state (with \<open>failbit\<close> set and \<open>eofbit\<close> clear no call changes anything), so
  not returning is the value \<open>None\<close>.
\<close>

partial_function (option) read_loop ::
  "ifstream \<Rightarrow> string \<Rightarrow> table \<Rightarrow> (error + table) option" where
  "read_loop fin s address_map =
     (if eofbit fin then Some (Inr address_map)
      else case getline fin s of
             (fin', s') \<Rightarrow>
               (case process_line s' address_map of
                  Inl e \<Rightarrow> Some (Inl e)
                | Inr m' \<Rightarrow> read_loop fin' s' m'))"

declare read_loop.simps [code]

text \<open>
  Lines 17 to 29. The argument is the content of \<open>./filtered_address.csv\<close>, or
  \<open>None\<close> when the file cannot be opened.
\<close>

definition aggregate :: "string option \<Rightarrow> (error + table) option" where
  "aggregate input =
     (case input of
        None \<Rightarrow> Some (Inr [])
      | Some content \<Rightarrow>
          (case getline (open_stream content) [] of
             (fin, s) \<Rightarrow> read_loop fin s []))"

text \<open>
  The lines the loop hands to its body, in order: the same loop with the body replaced by
  recording \<open>s\<close>. (Lemma \<open>aggregate_over_processed_lines\<close> below shows that the
  program runs \<open>process_line\<close> on exactly these, one after the other.)
\<close>

partial_function (option) lines_read :: "ifstream \<Rightarrow> string \<Rightarrow> string list option" where
  "lines_read fin s =
     (if eofbit fin then Some []
      else case getline fin s of
             (fin', s') \<Rightarrow> Option.bind (lines_read fin' s') (\<lambda>ls. Some (s' # ls)))"

declare lines_read.simps [code]

definition processed_lines :: "string option \<Rightarrow> string list option" where
  "processed_lines input =
     (case input of
        None \<Rightarrow> Some []
      | Some content \<Rightarrow>
          (case getline (open_stream content) [] of
             (fin, s) \<Rightarrow> lines_read fin s))"

subsection \<open>Output (lines 30 to 40)\<close>

text \<open>\<open>operator<<\<close> for integers: decimal digits, a minus sign for a negative \<open>int\<close>.\<close>

definition digit :: "nat \<Rightarrow> char" where
  "digit n = ''0123456789'' ! n"

fun show_nat :: "nat \<Rightarrow> string" where
  "show_nat n = (if n < 10 then [digit n] else show_nat (n div 10) @ [digit (n mod 10)])"

declare show_nat.simps [simp del]

definition show_int :: "int \<Rightarrow> string" where
  "show_int i = (if i < 0 then CHR ''-'' # show_nat (nat (- i)) else show_nat (nat i))"

text \<open>
  What the program does to the outside, in order: a statement writing to \<open>cout\<close>, the
  construction of \<open>fout\<close> (which creates or truncates the output file), a statement
  writing to \<open>fout\<close>. \<open>endl\<close> writes a newline. Failure to open the output file is not
  modelled.
\<close>

datatype event = Cout string | Fout_open | Fout string

datatype outcome = Exited int "event list" | Terminated error

definition row :: "string \<times> cint \<Rightarrow> string" where
  "row e = fst e @ [comma] @ show_int (sint (snd e))"

text \<open>
  \<open>traverse\<close> is the order in which \<open>begin()\<close> to \<open>end()\<close> visits the entries of the
  unordered container; the standard fixes nothing about it beyond visiting each entry
  once (\<open>is_iteration_order\<close>).
\<close>

definition is_iteration_order :: "('a list \<Rightarrow> 'a list) \<Rightarrow> bool" where
  "is_iteration_order traverse \<longleftrightarrow> (\<forall>xs. mset (traverse xs) = mset xs)"

definition report :: "(table \<Rightarrow> table) \<Rightarrow> table \<Rightarrow> event list" where
  "report traverse address_map =
     Cout (show_nat (length address_map) @ [newline]) #
     Fout_open #
     Fout (''address,count'' @ [newline]) #
     map (\<lambda>e. Fout (row e @ [newline])) (traverse address_map)"

definition get_address_freq_main ::
  "(table \<Rightarrow> table) \<Rightarrow> string option \<Rightarrow> outcome option" where
  "get_address_freq_main traverse input =
     (case aggregate input of
        None \<Rightarrow> None
      | Some (Inl e) \<Rightarrow> Some (Terminated e)
      | Some (Inr address_map) \<Rightarrow> Some (Exited 0 (report traverse address_map)))"

subsection \<open>Reading the events\<close>

fun console :: "event list \<Rightarrow> string" where
  "console [] = []"
| "console (Cout s # es) = s @ console es"
| "console (Fout_open # es) = console es"
| "console (Fout s # es) = console es"

text \<open>The output file after the events, from its content before (\<open>None\<close>: no file).\<close>

fun file_after :: "string option \<Rightarrow> event list \<Rightarrow> string option" where
  "file_after f [] = f"
| "file_after f (Cout s # es) = file_after f es"
| "file_after f (Fout_open # es) = file_after (Some []) es"
| "file_after f (Fout s # es) = file_after (map_option (\<lambda>t. t @ s) f) es"

text \<open>The lines of a text, each ended by a newline (a last line may lack it).\<close>

fun text_lines :: "string \<Rightarrow> string list" where
  "text_lines [] = []"
| "text_lines (c # cs) =
     (if c = newline then [] # text_lines cs
      else case text_lines cs of [] \<Rightarrow> [[c]] | l # ls \<Rightarrow> (c # l) # ls)"

definition data_rows :: "string \<Rightarrow> string list" where
  "data_rows text = tl (text_lines text)"

text \<open>The sum of the counts of a table, as integers.\<close>

definition total_count :: "table \<Rightarrow> int" where
  "total_count m = sum_list (map (\<lambda>e. sint (snd e)) m)"

section \<open>read\_data.cpp\<close>

definition get_address :: "string \<Rightarrow> error + string" where
  "get_address data_line = substr data_line 0 (find_first_of data_line comma)"

text \<open>\<open>unordered_set<string>::insert\<close>, the elements kept in order of insertion.\<close>

definition set_insert :: "string \<Rightarrow> string list \<Rightarrow> string list" where
  "set_insert a address_set = (if a \<in> set address_set then address_set else address_set @ [a])"

partial_function (option) read_data_loop ::
  "ifstream \<Rightarrow> string \<Rightarrow> string list \<Rightarrow> (error + string list) option" where
  "read_data_loop fin s address_set =
     (if eofbit fin then Some (Inr address_set)
      else case getline fin s of
             (fin', s') \<Rightarrow>
               (case get_address s' of
                  Inl e \<Rightarrow> Some (Inl e)
                | Inr a \<Rightarrow> read_data_loop fin' s' (set_insert a address_set)))"

declare read_data_loop.simps [code]

definition collect :: "string option \<Rightarrow> (error + string list) option" where
  "collect input =
     (case input of
        None \<Rightarrow> Some (Inr [])
      | Some content \<Rightarrow>
          (case getline (open_stream content) [] of
             (fin, s) \<Rightarrow> read_data_loop fin s []))"

definition read_data_report :: "(string list \<Rightarrow> string list) \<Rightarrow> string list \<Rightarrow> event list" where
  "read_data_report traverse address_set =
     Cout (show_nat (length address_set) @ [newline]) #
     Fout_open #
     Fout (''contract_address'' @ [newline]) #
     map (\<lambda>a. Fout (a @ [newline])) (traverse address_set)"

definition read_data_main ::
  "(string list \<Rightarrow> string list) \<Rightarrow> string option \<Rightarrow> outcome option" where
  "read_data_main traverse input =
     (case collect input of
        None \<Rightarrow> None
      | Some (Inl e) \<Rightarrow> Some (Terminated e)
      | Some (Inr address_set) \<Rightarrow> Some (Exited 0 (read_data_report traverse address_set)))"

section \<open>Notions used to state the properties\<close>

text \<open>The count stored for a key, 0 for an absent one (what \<open>operator[]\<close> would read).\<close>

definition count_of :: "table \<Rightarrow> string \<Rightarrow> cint" where
  "count_of m k = (case map_of m k of None \<Rightarrow> 0 | Some c \<Rightarrow> c)"

text \<open>The addresses the loop body extracts from a line, and from a list of lines.\<close>

definition line_addresses :: "string \<Rightarrow> string list" where
  "line_addresses l =
     (case first_field l of Inl e \<Rightarrow> [] | Inr a \<Rightarrow> [a]) @
     (case second_field l of Inl e \<Rightarrow> [] | Inr b \<Rightarrow> [b])"

definition addresses :: "string list \<Rightarrow> string list" where
  "addresses ls = concat (map line_addresses ls)"

text \<open>
  A record as the specification words it (sections 3 and 4.1): a line split at its first
  comma into everything before it and everything after it. These two definitions follow
  the specification, not the source.
\<close>

definition spec_record :: "string \<Rightarrow> string \<times> string" where
  "spec_record l =
     (takeWhile (\<lambda>x. x \<noteq> comma) l, tl (dropWhile (\<lambda>x. x \<noteq> comma) l))"

definition spec_addresses :: "string list \<Rightarrow> string list" where
  "spec_addresses ls = concat (map (\<lambda>l. [fst (spec_record l), snd (spec_record l)]) ls)"

text \<open>
  Reading a data row of the output file back: the count is the decimal number after the
  last comma, the address is what stands before that comma.
\<close>

definition read_nat :: "string \<Rightarrow> nat" where
  "read_nat s = foldl (\<lambda>n c. 10 * n + (of_char c - 48)) 0 s"

definition read_int :: "string \<Rightarrow> int" where
  "read_int s =
     (case s of
        [] \<Rightarrow> 0
      | c # r \<Rightarrow> if c = CHR ''-'' then - int (read_nat r) else int (read_nat s))"

definition row_count :: "string \<Rightarrow> int" where
  "row_count r = read_int (rev (takeWhile (\<lambda>x. x \<noteq> comma) (rev r)))"

definition row_address :: "string \<Rightarrow> string" where
  "row_address r = rev (tl (dropWhile (\<lambda>x. x \<noteq> comma) (rev r)))"

section \<open>Auxiliary notions for the proofs\<close>

text \<open>The pieces of a text between its newlines: one more than there are newlines.\<close>

fun sep_lines :: "string \<Rightarrow> string list" where
  "sep_lines [] = [[]]"
| "sep_lines (c # cs) =
     (if c = newline then [] # sep_lines cs
      else case sep_lines cs of [] \<Rightarrow> [[c]] | l # ls \<Rightarrow> (c # l) # ls)"

text \<open>Running the loop body over a list of lines, stopping at the first throw.\<close>

fun fold_lines :: "string list \<Rightarrow> table \<Rightarrow> error + table" where
  "fold_lines [] m = Inr m"
| "fold_lines (l # ls) m =
     (case process_line l m of Inl e \<Rightarrow> Inl e | Inr m' \<Rightarrow> fold_lines ls m')"

fun fold_addresses :: "string list \<Rightarrow> string list \<Rightarrow> error + string list" where
  "fold_addresses [] m = Inr m"
| "fold_addresses (l # ls) m =
     (case get_address l of Inl e \<Rightarrow> Inl e | Inr a \<Rightarrow> fold_addresses ls (set_insert a m))"

section \<open>The read loop in closed form\<close>

lemma sep_lines_unfold:
  "sep_lines t =
     (case dropWhile (\<lambda>c. c \<noteq> newline) t of
        [] \<Rightarrow> [takeWhile (\<lambda>c. c \<noteq> newline) t]
      | _ # after \<Rightarrow> takeWhile (\<lambda>c. c \<noteq> newline) t # sep_lines after)"
proof (induction t)
  case Nil
  show ?case by simp
next
  case (Cons c t)
  show ?case
  proof (cases "c = newline")
    case True
    then show ?thesis by simp
  next
    case False
    show ?thesis
    proof (cases "dropWhile (\<lambda>c. c \<noteq> newline) t")
      case Nil
      with Cons have "sep_lines t = [takeWhile (\<lambda>c. c \<noteq> newline) t]"
        by (simp only: list.case)
      then show ?thesis by (simp add: False Nil)
    next
      case (Cons x after)
      with Cons.IH have "sep_lines t = takeWhile (\<lambda>c. c \<noteq> newline) t # sep_lines after"
        by (simp only: list.case)
      then show ?thesis by (simp add: False Cons)
    qed
  qed
qed

lemma getline_good:
  assumes "\<not> eofbit fin" "\<not> failbit fin"
  shows "getline fin s =
     (case dropWhile (\<lambda>c. c \<noteq> newline) (unread fin) of
        [] \<Rightarrow> (fin\<lparr>unread := [], eofbit := True,
                 failbit := (takeWhile (\<lambda>c. c \<noteq> newline) (unread fin) = [])\<rparr>,
               takeWhile (\<lambda>c. c \<noteq> newline) (unread fin))
      | _ # after \<Rightarrow> (fin\<lparr>unread := after\<rparr>, takeWhile (\<lambda>c. c \<noteq> newline) (unread fin)))"
  using assms by (simp add: getline_def Let_def)

lemma length_after_less:
  "dropWhile P t = x # after \<Longrightarrow> length after < length t"
  by (metis length_dropWhile_le length_Cons less_Suc_eq_le not_less_eq)

lemma getline_last:
  assumes "\<not> eofbit fin" "\<not> failbit fin" "dropWhile (\<lambda>c. c \<noteq> newline) (unread fin) = []"
  shows "getline fin s =
           (fin\<lparr>unread := [], eofbit := True,
                failbit := (takeWhile (\<lambda>c. c \<noteq> newline) (unread fin) = [])\<rparr>,
            takeWhile (\<lambda>c. c \<noteq> newline) (unread fin))"
  by (simp only: getline_good [OF assms(1,2)] assms(3) list.case)

lemma getline_more:
  assumes "\<not> eofbit fin" "\<not> failbit fin"
    "dropWhile (\<lambda>c. c \<noteq> newline) (unread fin) = x # after"
  shows "getline fin s = (fin\<lparr>unread := after\<rparr>, takeWhile (\<lambda>c. c \<noteq> newline) (unread fin))"
  by (simp only: getline_good [OF assms(1,2)] assms(3) list.case)

lemma sep_lines_last:
  "dropWhile (\<lambda>c. c \<noteq> newline) t = [] \<Longrightarrow> sep_lines t = [takeWhile (\<lambda>c. c \<noteq> newline) t]"
  by (subst sep_lines_unfold) (simp only: list.case)

lemma sep_lines_more:
  "dropWhile (\<lambda>c. c \<noteq> newline) t = x # after \<Longrightarrow>
     sep_lines t = takeWhile (\<lambda>c. c \<noteq> newline) t # sep_lines after"
  by (subst sep_lines_unfold) (simp only: list.case)

lemma lines_read_good:
  "\<not> eofbit fin \<Longrightarrow> \<not> failbit fin \<Longrightarrow> lines_read fin s = Some (sep_lines (unread fin))"
proof (induction "length (unread fin)" arbitrary: fin s rule: less_induct)
  case less
  let ?l = "takeWhile (\<lambda>c. c \<noteq> newline) (unread fin)"
  show ?case
  proof (cases "dropWhile (\<lambda>c. c \<noteq> newline) (unread fin)")
    case Nil
    show ?thesis
      by (subst lines_read.simps)
         (simp add: getline_last [OF less.prems Nil] sep_lines_last [OF Nil] less.prems
            lines_read.simps)
  next
    case (Cons x after)
    have "lines_read (fin\<lparr>unread := after\<rparr>) ?l = Some (sep_lines after)"
      using less.hyps [of "fin\<lparr>unread := after\<rparr>"] less.prems length_after_less [OF Cons]
      by simp
    then show ?thesis
      by (subst lines_read.simps)
         (simp add: getline_more [OF less.prems Cons] sep_lines_more [OF Cons] less.prems)
  qed
qed

lemma read_loop_good:
  "\<not> eofbit fin \<Longrightarrow> \<not> failbit fin \<Longrightarrow>
     read_loop fin s m = Some (fold_lines (sep_lines (unread fin)) m)"
proof (induction "length (unread fin)" arbitrary: fin s m rule: less_induct)
  case less
  let ?l = "takeWhile (\<lambda>c. c \<noteq> newline) (unread fin)"
  show ?case
  proof (cases "dropWhile (\<lambda>c. c \<noteq> newline) (unread fin)")
    case Nil
    show ?thesis
      by (subst read_loop.simps)
         (simp add: getline_last [OF less.prems Nil] sep_lines_last [OF Nil] less.prems
            read_loop.simps split: sum.splits)
  next
    case (Cons x after)
    have "read_loop (fin\<lparr>unread := after\<rparr>) ?l m' = Some (fold_lines (sep_lines after) m')" for m'
      using less.hyps [of "fin\<lparr>unread := after\<rparr>"] less.prems length_after_less [OF Cons]
      by simp
    then show ?thesis
      by (subst read_loop.simps)
         (simp add: getline_more [OF less.prems Cons] sep_lines_more [OF Cons] less.prems
            split: sum.splits)
  qed
qed

lemma read_data_loop_good:
  "\<not> eofbit fin \<Longrightarrow> \<not> failbit fin \<Longrightarrow>
     read_data_loop fin s m = Some (fold_addresses (sep_lines (unread fin)) m)"
proof (induction "length (unread fin)" arbitrary: fin s m rule: less_induct)
  case less
  let ?l = "takeWhile (\<lambda>c. c \<noteq> newline) (unread fin)"
  show ?case
  proof (cases "dropWhile (\<lambda>c. c \<noteq> newline) (unread fin)")
    case Nil
    show ?thesis
      by (subst read_data_loop.simps)
         (simp add: getline_last [OF less.prems Nil] sep_lines_last [OF Nil] less.prems
            read_data_loop.simps split: sum.splits)
  next
    case (Cons x after)
    have "read_data_loop (fin\<lparr>unread := after\<rparr>) ?l m' =
            Some (fold_addresses (sep_lines after) m')" for m'
      using less.hyps [of "fin\<lparr>unread := after\<rparr>"] less.prems length_after_less [OF Cons]
      by simp
    then show ?thesis
      by (subst read_data_loop.simps)
         (simp add: getline_more [OF less.prems Cons] sep_lines_more [OF Cons] less.prems
            split: sum.splits)
  qed
qed

lemma open_stream_good: "\<not> eofbit (open_stream c)" "\<not> failbit (open_stream c)"
  "unread (open_stream c) = c"
  by (simp_all add: open_stream_def)

lemma processed_lines_eq:
  "processed_lines (Some content) = Some (tl (sep_lines content))"
proof (cases "dropWhile (\<lambda>c. c \<noteq> newline) content")
  case Nil
  then have "dropWhile (\<lambda>c. c \<noteq> newline) (unread (open_stream content)) = []"
    by (simp only: open_stream_good)
  from getline_last [OF open_stream_good(1,2) this] sep_lines_last [OF Nil]
  show ?thesis
    by (simp add: processed_lines_def lines_read.simps)
next
  case (Cons x after)
  then have "dropWhile (\<lambda>c. c \<noteq> newline) (unread (open_stream content)) = x # after"
    by (simp only: open_stream_good)
  from getline_more [OF open_stream_good(1,2) this] sep_lines_more [OF Cons]
  show ?thesis
    by (simp add: processed_lines_def lines_read_good open_stream_def)
qed

lemma aggregate_eq:
  "aggregate (Some content) = Some (fold_lines (tl (sep_lines content)) [])"
proof (cases "dropWhile (\<lambda>c. c \<noteq> newline) content")
  case Nil
  then have "dropWhile (\<lambda>c. c \<noteq> newline) (unread (open_stream content)) = []"
    by (simp only: open_stream_good)
  from getline_last [OF open_stream_good(1,2) this] sep_lines_last [OF Nil]
  show ?thesis
    by (simp add: aggregate_def read_loop.simps)
next
  case (Cons x after)
  then have "dropWhile (\<lambda>c. c \<noteq> newline) (unread (open_stream content)) = x # after"
    by (simp only: open_stream_good)
  from getline_more [OF open_stream_good(1,2) this] sep_lines_more [OF Cons]
  show ?thesis
    by (simp add: aggregate_def read_loop_good open_stream_def)
qed

lemma collect_eq:
  "collect (Some content) = Some (fold_addresses (tl (sep_lines content)) [])"
proof (cases "dropWhile (\<lambda>c. c \<noteq> newline) content")
  case Nil
  then have "dropWhile (\<lambda>c. c \<noteq> newline) (unread (open_stream content)) = []"
    by (simp only: open_stream_good)
  from getline_last [OF open_stream_good(1,2) this] sep_lines_last [OF Nil]
  show ?thesis
    by (simp add: collect_def read_data_loop.simps)
next
  case (Cons x after)
  then have "dropWhile (\<lambda>c. c \<noteq> newline) (unread (open_stream content)) = x # after"
    by (simp only: open_stream_good)
  from getline_more [OF open_stream_good(1,2) this] sep_lines_more [OF Cons]
  show ?thesis
    by (simp add: collect_def read_data_loop_good open_stream_def)
qed

text \<open>
  The program always leaves its loop, and what it has done then is the loop body run
  over the processed lines, in order, from the empty table.
\<close>

lemma aggregate_over_processed_lines:
  "\<exists>ls. processed_lines input = Some ls \<and> aggregate input = Some (fold_lines ls [])"
proof (cases input)
  case None
  then show ?thesis by (simp add: processed_lines_def aggregate_def)
next
  case (Some content)
  then show ?thesis by (simp add: processed_lines_eq aggregate_eq)
qed

lemma sep_lines_no_newline: "l \<in> set (sep_lines t) \<Longrightarrow> newline \<notin> set l"
  by (induction t arbitrary: l) (auto split: list.splits if_splits)

lemma sep_lines_length_le: "l \<in> set (sep_lines t) \<Longrightarrow> length l \<le> length t"
  by (induction t arbitrary: l) (fastforce split: list.splits if_splits)+

lemma length_sep_lines: "length (sep_lines t) \<le> Suc (length t)"
  by (induction t) (auto split: list.splits)

section \<open>Conversions between \<open>size_t\<close> and \<open>int\<close>\<close>

lemma ucast_of_nat_small:
  "p < 2 ^ 31 \<Longrightarrow> (ucast (of_nat p :: 64 word) :: 32 word) = of_nat p"
  by (simp add: word_eq_iff_unsigned [where ?'a = nat] unsigned_ucast_eq unsigned_of_nat
      take_bit_nat_eq_self)

lemma sint_of_nat_small: "p < 2 ^ 31 \<Longrightarrow> sint (of_nat p :: 32 word) = int p"
  by (simp add: signed_of_nat signed_take_bit_int_eq_self)

lemma scast_of_nat_small:
  "p < 2 ^ 31 \<Longrightarrow> (scast (of_nat p :: 32 word) :: 64 word) = of_nat p"
  by (simp add: scast_eq sint_of_nat_small)

text \<open>A position below \<open>2 ^ 31\<close> survives the trip through \<open>int\<close>.\<close>

lemma int_round_trip:
  "p < 2 ^ 31 \<Longrightarrow> (scast (ucast (of_nat p :: 64 word) :: 32 word) :: 64 word) = of_nat p"
  by (simp add: ucast_of_nat_small scast_of_nat_small)

lemma int_succ_round_trip:
  assumes "p < 2 ^ 31 - 1"
  shows "(scast ((ucast (of_nat p :: 64 word) :: 32 word) + 1) :: 64 word) = of_nat (Suc p)"
proof -
  from assms have "(ucast (of_nat p :: 64 word) :: 32 word) + 1 = of_nat (Suc p)"
    by (simp add: ucast_of_nat_small)
  moreover have "Suc p < 2 ^ 31" using assms by simp
  ultimately show ?thesis by (simp only: scast_of_nat_small)
qed

text \<open>\<open>npos\<close> becomes \<open>-1\<close> in the \<open>int\<close> and \<open>npos\<close> again on the way back.\<close>

lemma npos_round_trip: "(scast (ucast (- 1 :: 64 word) :: 32 word) :: 64 word) = - 1"
  by code_simp

lemma npos_succ_round_trip:
  "(scast ((ucast (- 1 :: 64 word) :: 32 word) + 1) :: 64 word) = 0"
  by code_simp

lemma unat_size_t: "n < 2 ^ 64 \<Longrightarrow> unat (of_nat n :: 64 word) = n"
  by (simp add: unat_of_nat)

lemma unat_npos: "unat (- 1 :: 64 word) = 2 ^ 64 - 1"
  by (simp add: unsigned_minus_1_eq_mask mask_eq_exp_minus_1)

lemma size_not_less: "n < 2 ^ 64 \<Longrightarrow> m \<le> n \<Longrightarrow> \<not> (of_nat n :: 64 word) < of_nat m"
  by (simp add: word_of_nat_less_iff take_bit_nat_eq_self)

lemma unat_rest_length:
  assumes "p < n" and "n < 2 ^ 64"
  shows "unat ((of_nat n :: 64 word) - of_nat p - 1) = n - p - 1"
proof -
  from assms(1) obtain k where n: "n = Suc (p + k)"
    using less_imp_Suc_add by blast
  have e: "(of_nat n :: 64 word) - of_nat p - 1 = of_nat k"
    by (simp add: n)
  have "unat (of_nat k :: 64 word) = k"
    using assms(2) n by (simp add: unat_of_nat)
  then show ?thesis by (simp add: e n)
qed

text \<open>\<open>size() - pos - 1\<close> with \<open>pos = -1\<close> wraps around to \<open>size()\<close>.\<close>

lemma unat_length_wrap: "n < 2 ^ 64 \<Longrightarrow> unat ((of_nat n :: 64 word) - (- 1) - 1) = n"
  by (simp add: unat_of_nat)

section \<open>What the field extractions return\<close>

lemma length_takeWhile_less: "c \<in> set s \<Longrightarrow> length (takeWhile (\<lambda>x. x \<noteq> c) s) < length s"
  by (induction s) auto

lemma drop_takeWhile_conv:
  "c \<in> set s \<Longrightarrow>
     drop (Suc (length (takeWhile (\<lambda>x. x \<noteq> c) s))) s = tl (dropWhile (\<lambda>x. x \<noteq> c) s)"
  by (induction s) auto

lemma take_takeWhile_conv:
  "take (length (takeWhile P s)) s = takeWhile P s"
  by (induction s) auto

lemma get_first_address_comma:
  assumes "comma \<in> set s" "length s < 2 ^ 64"
  shows "get_first_address s = Inr (takeWhile (\<lambda>x. x \<noteq> comma) s)"
proof -
  let ?p = "length (takeWhile (\<lambda>x. x \<noteq> comma) s)"
  have p: "?p < length s" using assms(1) by (rule length_takeWhile_less)
  then have "unat (of_nat ?p :: 64 word) = ?p"
    using assms(2) by (simp add: unat_size_t)
  then show ?thesis
    using assms(1) by (simp add: get_first_address_def find_first_of_def substr_def take_takeWhile_conv)
qed

lemma first_field_comma:
  assumes "comma \<in> set s" "length s < 2 ^ 31"
  shows "first_field s = Inr (takeWhile (\<lambda>x. x \<noteq> comma) s)"
proof -
  let ?p = "length (takeWhile (\<lambda>x. x \<noteq> comma) s)"
  have p: "?p < length s" using assms(1) by (rule length_takeWhile_less)
  with assms(2) have p31: "?p < 2 ^ 31" by simp
  have "unat (of_nat ?p :: 64 word) = ?p"
    using p31 by (simp add: unat_size_t)
  then show ?thesis
    using assms(1)
    by (simp add: first_field_def line_pos_def find_first_of_def substr_def
        int_round_trip [OF p31] take_takeWhile_conv)
qed

lemma second_field_comma:
  assumes "comma \<in> set s" "length s < 2 ^ 31"
  shows "second_field s = Inr (tl (dropWhile (\<lambda>x. x \<noteq> comma) s))"
proof -
  let ?p = "length (takeWhile (\<lambda>x. x \<noteq> comma) s)"
  have p: "?p < length s" using assms(1) by (rule length_takeWhile_less)
  with assms(2) have p31: "?p < 2 ^ 31" and p31': "?p < 2 ^ 31 - 1" by simp_all
  have n64: "length s < 2 ^ 64" using assms(2) by simp
  have pos: "line_pos s = ucast (of_nat ?p :: 64 word)"
    using assms(1) by (simp add: line_pos_def find_first_of_def)
  have start: "(scast (line_pos s + 1) :: 64 word) = of_nat (Suc ?p)"
    by (simp only: pos int_succ_round_trip [OF p31'])
  have len: "unat (string_size s - scast (line_pos s) - 1) = length s - ?p - 1"
    by (simp only: pos int_round_trip [OF p31] string_size_def unat_rest_length [OF p n64])
  have inside: "\<not> string_size s < of_nat (Suc ?p)"
    unfolding string_size_def using p n64 by (intro size_not_less) simp_all
  have "Suc ?p < 2 ^ 64" using p n64 by simp
  then have u: "unat (of_nat (Suc ?p) :: 64 word) = Suc ?p"
    by (rule unat_size_t)
  have "take (length s - ?p - 1) (drop (Suc ?p) s) = drop (Suc ?p) s"
    by simp
  also have "\<dots> = tl (dropWhile (\<lambda>x. x \<noteq> comma) s)"
    by (rule drop_takeWhile_conv [OF assms(1)])
  finally have body:
    "take (length s - ?p - 1) (drop (Suc ?p) s) = tl (dropWhile (\<lambda>x. x \<noteq> comma) s)" .
  show ?thesis
    unfolding second_field_def substr_def start len u
    using inside by (simp only: body if_False)
qed

lemma first_field_no_comma:
  assumes "comma \<notin> set s" "length s < 2 ^ 64"
  shows "first_field s = Inr s"
  using assms
  by (simp add: first_field_def line_pos_def find_first_of_def npos_def substr_def
      npos_round_trip unat_npos)

lemma second_field_no_comma:
  assumes "comma \<notin> set s" "length s < 2 ^ 64"
  shows "second_field s = Inr s"
proof -
  have pos: "line_pos s = ucast (- 1 :: 64 word)"
    using assms(1) by (simp add: line_pos_def find_first_of_def npos_def)
  have len: "unat (string_size s - scast (line_pos s) - 1) = length s"
    by (simp only: pos npos_round_trip string_size_def unat_length_wrap [OF assms(2)])
  show ?thesis
    unfolding second_field_def substr_def len
    by (simp add: pos npos_succ_round_trip)
qed

lemma get_first_address_no_comma:
  assumes "comma \<notin> set s" "length s < 2 ^ 64"
  shows "get_first_address s = Inr s"
  using assms
  by (simp add: get_first_address_def find_first_of_def npos_def substr_def unat_npos)

lemma get_second_address_eq: "get_second_address s = second_field s"
  by (simp add: get_second_address_def second_field_def line_pos_def Let_def)

lemma get_address_eq: "get_address s = get_first_address s"
  by (simp add: get_address_def get_first_address_def)

lemma substr_chars: "substr s p n = Inr a \<Longrightarrow> set a \<subseteq> set s"
  by (auto simp: substr_def split: if_splits dest: in_set_takeD in_set_dropD)

section \<open>The frequency table\<close>

lemma keys_subscript_incr: "fst ` set (subscript_incr k m) = insert k (fst ` set m)"
  by (induction k m rule: subscript_incr.induct) auto

lemma distinct_subscript_incr:
  "distinct (map fst m) \<Longrightarrow> distinct (map fst (subscript_incr k m))"
  by (induction k m rule: subscript_incr.induct) (auto simp: keys_subscript_incr)

lemma length_subscript_incr:
  "length (subscript_incr k m) = (if k \<in> fst ` set m then length m else Suc (length m))"
  by (induction k m rule: subscript_incr.induct) auto

lemma count_of_subscript_incr:
  "count_of (subscript_incr k m) k' = (if k' = k then count_of m k + 1 else count_of m k')"
  by (induction k m rule: subscript_incr.induct) (auto simp: count_of_def)

lemma count_of_key:
  "k \<in> fst ` set m \<Longrightarrow> (k, count_of m k) \<in> set m"
  by (induction m) (auto simp: count_of_def)

lemma sint_succ:
  fixes c :: cint
  assumes "sint c < 2 ^ 31 - 1"
  shows "sint (c + 1) = sint c + 1"
proof -
  have "- (2 ^ 31) \<le> sint c" using sint_ge [of c] by simp
  with assms show ?thesis
    by (simp add: sint_word_ariths signed_take_bit_int_eq_self)
qed

lemma total_count_nonneg: "\<forall>e\<in>set m. 0 < sint (snd e) \<Longrightarrow> 0 \<le> total_count m"
  by (induction m) (auto simp: total_count_def)

lemma total_subscript_incr:
  assumes "\<forall>e\<in>set m. 0 < sint (snd e)" "total_count m < 2 ^ 31 - 1"
  shows "total_count (subscript_incr k m) = total_count m + 1 \<and>
         (\<forall>e\<in>set (subscript_incr k m). 0 < sint (snd e))"
  using assms
proof (induction k m rule: subscript_incr.induct)
  case (1 k)
  show ?case by (simp add: total_count_def)
next
  case (2 k k' c m)
  have pos: "\<forall>e\<in>set m. 0 < sint (snd e)" and c: "0 < sint c"
    using "2.prems"(1) by simp_all
  have tot: "total_count ((k', c) # m) = sint c + total_count m"
    by (simp add: total_count_def)
  have nn: "0 \<le> total_count m" using pos by (rule total_count_nonneg)
  show ?case
  proof (cases "k' = k")
    case True
    have "sint c < 2 ^ 31 - 1" using "2.prems"(2) tot nn by simp
    then have "sint (c + 1) = sint c + 1" by (rule sint_succ)
    with True pos c show ?thesis by (simp add: total_count_def)
  next
    case False
    have "total_count m < 2 ^ 31 - 1" using "2.prems"(2) tot c by simp
    with "2.IH" [OF False pos] False c show ?thesis by (simp add: total_count_def)
  qed
qed

section \<open>The loop body over all lines\<close>

lemma fields_short:
  assumes "length l < 2 ^ 31"
  shows "\<exists>a b. first_field l = Inr a \<and> second_field l = Inr b"
proof (cases "comma \<in> set l")
  case True
  with assms show ?thesis
    by (simp add: first_field_comma second_field_comma)
next
  case False
  moreover have "length l < 2 ^ 64" using assms by simp
  ultimately show ?thesis
    by (simp add: first_field_no_comma second_field_no_comma)
qed

lemma process_line_Inr:
  "first_field l = Inr a \<Longrightarrow> second_field l = Inr b \<Longrightarrow>
     process_line l m = Inr (subscript_incr b (subscript_incr a m))"
  by (simp add: process_line_def)

lemma process_line_cases:
  "process_line l m = Inr m' \<Longrightarrow>
     \<exists>a b. first_field l = Inr a \<and> second_field l = Inr b \<and>
       m' = subscript_incr b (subscript_incr a m)"
  by (auto simp: process_line_def Let_def split: sum.splits)

lemma line_addresses_Inr:
  "first_field l = Inr a \<Longrightarrow> second_field l = Inr b \<Longrightarrow> line_addresses l = [a, b]"
  by (simp add: line_addresses_def)

lemma addresses_Cons: "addresses (l # ls) = line_addresses l @ addresses ls"
  by (simp add: addresses_def)

lemma addresses_Nil: "addresses [] = []"
  by (simp add: addresses_def)

lemma fold_lines_invariant:
  assumes "\<forall>l\<in>set ls. length l < 2 ^ 31"
    and "\<forall>e\<in>set m. 0 < sint (snd e)"
    and "distinct (map fst m)"
    and "total_count m + 2 * int (length ls) < 2 ^ 31"
  shows "\<exists>m'. fold_lines ls m = Inr m' \<and>
           (\<forall>e\<in>set m'. 0 < sint (snd e)) \<and>
           distinct (map fst m') \<and>
           total_count m' = total_count m + 2 * int (length ls) \<and>
           fst ` set m' = fst ` set m \<union> set (addresses ls) \<and>
           length (addresses ls) = 2 * length ls"
  using assms
proof (induction ls arbitrary: m)
  case Nil
  then show ?case by (simp add: addresses_Nil)
next
  case (Cons l ls)
  from Cons.prems(1) have "length l < 2 ^ 31" by simp
  then obtain a b where ab: "first_field l = Inr a" "second_field l = Inr b"
    using fields_short by blast
  let ?m1 = "subscript_incr a m"
  let ?m2 = "subscript_incr b ?m1"
  have t0: "total_count m < 2 ^ 31 - 1" using Cons.prems(4) by simp
  from total_subscript_incr [OF Cons.prems(2) t0, of a]
  have t1: "total_count ?m1 = total_count m + 1" and p1: "\<forall>e\<in>set ?m1. 0 < sint (snd e)"
    by simp_all
  have "total_count ?m1 < 2 ^ 31 - 1" using Cons.prems(4) t1 by simp
  from total_subscript_incr [OF p1 this, of b]
  have t2: "total_count ?m2 = total_count m + 2" and p2: "\<forall>e\<in>set ?m2. 0 < sint (snd e)"
    using t1 by simp_all
  have d2: "distinct (map fst ?m2)"
    using Cons.prems(3) by (intro distinct_subscript_incr)
  have "total_count ?m2 + 2 * int (length ls) < 2 ^ 31"
    using Cons.prems(4) t2 by simp
  from Cons.IH [OF _ p2 d2 this] Cons.prems(1)
  obtain m' where m': "fold_lines ls ?m2 = Inr m'"
    "\<forall>e\<in>set m'. 0 < sint (snd e)" "distinct (map fst m')"
    "total_count m' = total_count ?m2 + 2 * int (length ls)"
    "fst ` set m' = fst ` set ?m2 \<union> set (addresses ls)"
    "length (addresses ls) = 2 * length ls"
    by auto
  have "fold_lines (l # ls) m = Inr m'"
    using m'(1) by (simp add: process_line_Inr [OF ab])
  moreover have "total_count m' = total_count m + 2 * int (length (l # ls))"
    using m'(4) t2 by simp
  moreover have "fst ` set m' = fst ` set m \<union> set (addresses (l # ls))"
    using m'(5) by (auto simp: keys_subscript_incr addresses_Cons line_addresses_Inr [OF ab])
  moreover have "length (addresses (l # ls)) = 2 * length (l # ls)"
    using m'(6) by (simp add: addresses_Cons line_addresses_Inr [OF ab])
  ultimately show ?case using m'(2,3) by blast
qed

lemma fold_lines_keys:
  assumes "fold_lines ls m = Inr m'"
    and "\<forall>l\<in>set ls. newline \<notin> set l"
    and "\<forall>k\<in>fst ` set m. newline \<notin> set k"
  shows "\<forall>k\<in>fst ` set m'. newline \<notin> set k"
  using assms
proof (induction ls arbitrary: m)
  case Nil
  then show ?case by simp
next
  case (Cons l ls)
  from Cons.prems(1) obtain m1 where m1: "process_line l m = Inr m1" "fold_lines ls m1 = Inr m'"
    by (auto split: sum.splits)
  from process_line_cases [OF m1(1)] obtain a b where
    ab: "first_field l = Inr a" "second_field l = Inr b"
      "m1 = subscript_incr b (subscript_incr a m)"
    by blast
  have "set a \<subseteq> set l" "set b \<subseteq> set l"
    using ab(1,2) by (auto simp: first_field_def second_field_def dest: substr_chars)
  with Cons.prems(2) have "newline \<notin> set a" "newline \<notin> set b" by auto
  with Cons.prems(3) have "\<forall>k\<in>fst ` set m1. newline \<notin> set k"
    by (simp add: ab(3) keys_subscript_incr)
  from Cons.IH [OF m1(2) _ this] Cons.prems(2) show ?case by simp
qed

section \<open>The output stage\<close>

lemma digit_chars: "n < 10 \<Longrightarrow> digit n \<in> set ''0123456789''"
  unfolding digit_def by (rule nth_mem) simp

lemma show_nat_chars: "set (show_nat n) \<subseteq> set ''0123456789''"
proof (induction n rule: show_nat.induct)
  case (1 n)
  show ?case
  proof (cases "n < 10")
    case True
    then show ?thesis
      using digit_chars [of n] by (subst show_nat.simps) simp
  next
    case False
    have "n mod 10 < 10" by simp
    from digit_chars [OF this] "1.IH" [OF False] False show ?thesis
      by (subst show_nat.simps) simp
  qed
qed

lemma show_nat_no_newline: "newline \<notin> set (show_nat n)"
  using show_nat_chars [of n] by (auto simp: newline_def)

lemma show_int_no_newline: "newline \<notin> set (show_int i)"
  using show_nat_no_newline by (simp add: show_int_def newline_def)

lemma row_no_newline: "newline \<notin> set (fst e) \<Longrightarrow> newline \<notin> set (row e)"
  using show_int_no_newline by (simp add: row_def comma_def newline_def)

lemma text_lines_line:
  "newline \<notin> set l \<Longrightarrow> text_lines (l @ newline # rest) = l # text_lines rest"
  by (induction l) auto

lemma text_lines_concat:
  "\<forall>x\<in>set xs. newline \<notin> set (f x) \<Longrightarrow>
     text_lines (concat (map (\<lambda>x. f x @ [newline]) xs)) = map f xs"
  by (induction xs) (simp_all add: text_lines_line)

lemma file_after_Fouts:
  "file_after (Some t) (map (\<lambda>x. Fout (f x)) xs) = Some (t @ concat (map f xs))"
  by (induction xs arbitrary: t) simp_all

lemma console_Fouts: "console (map (\<lambda>x. Fout (f x)) xs) = []"
  by (induction xs) simp_all

lemma iteration_order_set: "is_iteration_order tr \<Longrightarrow> set (tr xs) = set xs"
  by (metis is_iteration_order_def mset_eq_setD)

lemma iteration_order_length: "is_iteration_order tr \<Longrightarrow> length (tr xs) = length xs"
  by (metis is_iteration_order_def mset_eq_length)

lemma iteration_order_Nil: "is_iteration_order tr \<Longrightarrow> tr [] = []"
  using iteration_order_length [of tr "[]"] by simp

lemma iteration_order_map: "is_iteration_order tr \<Longrightarrow> mset (map f (tr xs)) = mset (map f xs)"
  by (simp add: is_iteration_order_def)

lemma file_after_report:
  "file_after prev (report tr m) =
     Some (''address,count'' @ newline # concat (map (\<lambda>e. row e @ [newline]) (tr m)))"
  by (simp add: report_def file_after_Fouts)

lemma console_report: "console (report tr m) = show_nat (length m) @ [newline]"
  by (simp add: report_def console_Fouts)

lemma text_lines_header_rows:
  assumes "newline \<notin> set h" "\<forall>x\<in>set xs. newline \<notin> set (f x)"
  shows "text_lines (h @ newline # concat (map (\<lambda>x. f x @ [newline]) xs)) = h # map f xs"
  using text_lines_line [OF assms(1)] text_lines_concat [OF assms(2)] by simp

lemma header_no_newline:
  "newline \<notin> set ''address,count''" "newline \<notin> set ''contract_address''"
  by (simp_all add: newline_def)

lemma text_lines_report:
  assumes "\<forall>e\<in>set es. newline \<notin> set (fst e)"
  shows "text_lines (''address,count'' @ newline # concat (map (\<lambda>e. row e @ [newline]) es))
           = ''address,count'' # map row es"
proof -
  have "\<forall>e\<in>set es. newline \<notin> set (row e)"
    using assms row_no_newline by blast
  from text_lines_header_rows [OF header_no_newline(1) this] show ?thesis .
qed

lemma file_after_read_data_report:
  "file_after prev (read_data_report tr m) =
     Some (''contract_address'' @ newline # concat (map (\<lambda>a. a @ [newline]) (tr m)))"
  by (simp add: read_data_report_def file_after_Fouts)

lemma text_lines_read_data_report:
  assumes "\<forall>a\<in>set xs. newline \<notin> set a"
  shows "text_lines (''contract_address'' @ newline # concat (map (\<lambda>a. a @ [newline]) xs))
           = ''contract_address'' # xs"
  using text_lines_header_rows [OF header_no_newline(2), of xs "\<lambda>a. a"] assms by simp

section \<open>The whole run\<close>

lemma aggregate_None: "aggregate None = Some (Inr [])"
  by (simp add: aggregate_def)

lemma main_Inr:
  "aggregate input = Some (Inr m) \<Longrightarrow>
     get_address_freq_main tr input = Some (Exited 0 (report tr m))"
  by (simp add: get_address_freq_main_def)

lemma main_Inl:
  "aggregate input = Some (Inl e) \<Longrightarrow> get_address_freq_main tr input = Some (Terminated e)"
  by (simp add: get_address_freq_main_def)

lemma set_tl_subset: "set (tl xs) \<subseteq> set xs"
  by (cases xs) auto

lemma records_short:
  assumes "length content < n" "l \<in> set (tl (sep_lines content))"
  shows "length l < n"
  using assms sep_lines_length_le [of l content] set_tl_subset [of "sep_lines content"]
  by fastforce

lemma records_no_newline:
  "l \<in> set (tl (sep_lines content)) \<Longrightarrow> newline \<notin> set l"
  using sep_lines_no_newline [of l content] set_tl_subset [of "sep_lines content"] by blast

lemma records_count: "length (tl (sep_lines content)) \<le> length content"
  using length_sep_lines [of content] by simp

lemma aggregate_small:
  assumes "length content < 2 ^ 30"
  shows "\<exists>m. aggregate (Some content) = Some (Inr m) \<and>
           (\<forall>e\<in>set m. 0 < sint (snd e)) \<and>
           distinct (map fst m) \<and>
           total_count m = 2 * int (length (tl (sep_lines content))) \<and>
           fst ` set m = set (addresses (tl (sep_lines content))) \<and>
           length (addresses (tl (sep_lines content))) = 2 * length (tl (sep_lines content)) \<and>
           (\<forall>k\<in>fst ` set m. newline \<notin> set k)"
proof -
  let ?ls = "tl (sep_lines content)"
  have short: "\<forall>l\<in>set ?ls. length l < 2 ^ 31"
  proof
    fix l assume "l \<in> set ?ls"
    with assms have "length l < 2 ^ 30" by (rule records_short)
    then show "length l < 2 ^ 31" by simp
  qed
  have "int (length ?ls) < 2 ^ 30"
    using records_count [of content] assms by simp
  then have bound: "total_count [] + 2 * int (length ?ls) < 2 ^ 31"
    by (simp add: total_count_def)
  from fold_lines_invariant [OF short _ _ bound]
  obtain m where m: "fold_lines ?ls [] = Inr m" "\<forall>e\<in>set m. 0 < sint (snd e)"
    "distinct (map fst m)" "total_count m = total_count [] + 2 * int (length ?ls)"
    "fst ` set m = fst ` set [] \<union> set (addresses ?ls)"
    "length (addresses ?ls) = 2 * length ?ls"
    by auto
  have nl: "\<forall>k\<in>fst ` set m. newline \<notin> set k"
    using fold_lines_keys [OF m(1)] records_no_newline by simp
  have agg: "aggregate (Some content) = Some (Inr m)"
    by (simp add: aggregate_eq m(1))
  have tot: "total_count m = 2 * int (length ?ls)"
    using m(4) by (simp add: total_count_def)
  have keys: "fst ` set m = set (addresses ?ls)"
    using m(5) by simp
  show ?thesis
    using agg m(2,3) tot keys m(6) nl by blast
qed

lemma count_of_positive:
  assumes "\<forall>e\<in>set m. 0 < sint (snd e)" "k \<in> fst ` set m"
  shows "1 \<le> sint (count_of m k)"
  using count_of_key [OF assms(2)] assms(1) by fastforce

lemma total_count_mset: "mset m' = mset m \<Longrightarrow> total_count m' = total_count m"
proof -
  assume "mset m' = mset m"
  then have "mset (map (\<lambda>e. sint (snd e)) m') = mset (map (\<lambda>e. sint (snd e)) m)"
    by simp
  then show ?thesis
    unfolding total_count_def by (metis sum_mset_sum_list)
qed

lemma data_rows_report:
  assumes "is_iteration_order tr" "\<forall>k\<in>fst ` set m. newline \<notin> set k"
  shows "\<exists>t. file_after prev (report tr m) = Some t \<and>
           text_lines t = ''address,count'' # map row (tr m)"
proof -
  have "\<forall>e\<in>set (tr m). newline \<notin> set (fst e)"
    using assms by (simp add: iteration_order_set)
  from text_lines_report [OF this] show ?thesis
    by (simp add: file_after_report)
qed

section \<open>Processed lines and the lines of the file\<close>

lemma text_lines_not_Nil: "t \<noteq> [] \<Longrightarrow> text_lines t \<noteq> []"
  by (cases t) (auto split: list.splits)

lemma sep_lines_text_lines:
  "sep_lines t = (if t = [] \<or> last t = newline then text_lines t @ [[]] else text_lines t)"
proof (induction t)
  case Nil
  show ?case by simp
next
  case (Cons c t)
  show ?case
  proof (cases "t = []")
    case True
    then show ?thesis by simp
  next
    case False
    with Cons text_lines_not_Nil [OF False] show ?thesis
      by (auto split: list.splits)
  qed
qed

lemma processed_lines_trailing_newline:
  "processed_lines (Some (t @ [newline])) = Some (tl (text_lines (t @ [newline])) @ [[]])"
proof -
  have "text_lines (t @ [newline]) \<noteq> []" by (rule text_lines_not_Nil) simp
  then show ?thesis
    by (simp add: processed_lines_eq sep_lines_text_lines)
qed

lemma processed_lines_no_trailing_newline:
  "t \<noteq> [] \<Longrightarrow> last t \<noteq> newline \<Longrightarrow> processed_lines (Some t) = Some (tl (text_lines t))"
  by (simp add: processed_lines_eq sep_lines_text_lines)

section \<open>Evaluating runs on short lines\<close>

lemma takeWhile_no_comma: "c \<notin> set s \<Longrightarrow> takeWhile (\<lambda>x. x \<noteq> c) s = s"
  by (induction s) auto

lemma first_field_short:
  assumes "length s < 2 ^ 31"
  shows "first_field s = Inr (takeWhile (\<lambda>x. x \<noteq> comma) s)"
proof (cases "comma \<in> set s")
  case True
  from True assms show ?thesis by (rule first_field_comma)
next
  case False
  moreover have "length s < 2 ^ 64" using assms by simp
  ultimately show ?thesis
    by (simp add: first_field_no_comma takeWhile_no_comma)
qed

lemma second_field_short:
  assumes "length s < 2 ^ 31"
  shows "second_field s =
           Inr (if comma \<in> set s then tl (dropWhile (\<lambda>x. x \<noteq> comma) s) else s)"
proof (cases "comma \<in> set s")
  case True
  with assms show ?thesis by (simp add: second_field_comma)
next
  case False
  moreover have "length s < 2 ^ 64" using assms by simp
  ultimately show ?thesis
    by (simp add: second_field_no_comma)
qed

lemma process_line_short:
  assumes "length s < 2 ^ 31"
  shows "process_line s m =
           Inr (subscript_incr
                  (if comma \<in> set s then tl (dropWhile (\<lambda>x. x \<noteq> comma) s) else s)
                  (subscript_incr (takeWhile (\<lambda>x. x \<noteq> comma) s) m))"
  by (rule process_line_Inr [OF first_field_short [OF assms] second_field_short [OF assms]])

lemmas run_simps =
  aggregate_eq processed_lines_eq process_line_short first_field_short second_field_short
  comma_def newline_def

lemmas read_simps = row_count_def read_int_def read_nat_def row_address_def comma_def

lemmas main_simps =
  get_address_freq_main_def run_simps report_def row_def show_int_def show_nat.simps digit_def

section \<open>Reading the output back\<close>

lemma processed_unterminated:
  assumes "c = [] \<or> last c \<noteq> newline"
  shows "tl (sep_lines c) = data_rows c"
  using assms by (auto simp: sep_lines_text_lines data_rows_def)

lemma processed_terminated:
  "tl (sep_lines (t @ [newline])) = data_rows (t @ [newline]) @ [[]]"
proof -
  have "text_lines (t @ [newline]) \<noteq> []" by (rule text_lines_not_Nil) simp
  then show ?thesis by (simp add: sep_lines_text_lines data_rows_def)
qed

text \<open>
  For every file of fewer than \<open>2 ^ 30\<close> characters that ends with a newline, the counts
  of the table sum to 2 more than twice the number of data lines.
\<close>

lemma final_newline_adds_two:
  assumes "length (t @ [newline]) < 2 ^ 30"
  shows "\<exists>m. aggregate (Some (t @ [newline])) = Some (Inr m) \<and>
           total_count m = 2 * int (length (data_rows (t @ [newline]))) + 2"
proof -
  from aggregate_small [OF assms] obtain m where
    m: "aggregate (Some (t @ [newline])) = Some (Inr m)"
      "total_count m = 2 * int (length (tl (sep_lines (t @ [newline]))))"
    by (elim exE conjE)
  from m(2) have "total_count m = 2 * int (length (data_rows (t @ [newline]))) + 2"
    by (simp only: processed_terminated) simp
  with m(1) show ?thesis by (intro exI [of _ m] conjI)
qed

lemma line_addresses_spec:
  assumes "comma \<in> set l" and "length l < 2 ^ 31"
  shows "line_addresses l = [fst (spec_record l), snd (spec_record l)]"
  using first_field_comma [OF assms] second_field_comma [OF assms]
  by (simp add: line_addresses_def spec_record_def)

lemma addresses_spec:
  assumes "\<forall>l\<in>set ls. comma \<in> set l \<and> length l < 2 ^ 31"
  shows "addresses ls = spec_addresses ls"
  using assms
  by (induction ls) (simp_all add: addresses_def spec_addresses_def line_addresses_spec)

lemma read_nat_snoc: "read_nat (s @ [c]) = 10 * read_nat s + (of_char c - 48)"
  by (simp add: read_nat_def)

lemma of_char_digit: "d < 10 \<Longrightarrow> of_char (digit d) - 48 = d"
proof -
  assume "d < 10"
  then have "d \<in> {0, 1, 2, 3, 4, 5, 6, 7, 8, 9}" by auto
  then show ?thesis by (auto simp: digit_def)
qed

lemma read_nat_show_nat: "read_nat (show_nat n) = n"
proof (induction n rule: show_nat.induct)
  case (1 n)
  show ?case
  proof (cases "n < 10")
    case True
    then show ?thesis
      by (subst show_nat.simps) (simp add: read_nat_def of_char_digit)
  next
    case False
    have "n mod 10 < 10" by simp
    from of_char_digit [OF this] "1.IH" [OF False] False show ?thesis
      by (subst show_nat.simps) (simp add: read_nat_snoc)
  qed
qed

lemma show_nat_Cons: "\<exists>c r. show_nat n = c # r \<and> c \<noteq> CHR ''-''"
proof -
  have "show_nat n \<noteq> []"
    by (subst show_nat.simps) simp
  then obtain c r where cr: "show_nat n = c # r" by (cases "show_nat n") auto
  then have "c \<in> set (show_nat n)" by simp
  with show_nat_chars [of n] have "c \<in> set ''0123456789''" by blast
  then have "c \<noteq> CHR ''-''" by auto
  with cr show ?thesis by blast
qed

lemma read_int_show_int: "read_int (show_int i) = i"
proof (cases "i < 0")
  case True
  then show ?thesis by (simp add: show_int_def read_int_def read_nat_show_nat)
next
  case False
  from show_nat_Cons [of "nat i"] obtain c r where
    cr: "show_nat (nat i) = c # r" "c \<noteq> CHR ''-''" by blast
  have "read_int (show_nat (nat i)) = int (read_nat (show_nat (nat i)))"
    unfolding read_int_def cr(1) using cr(2) by simp
  with False show ?thesis by (simp add: show_int_def read_nat_show_nat)
qed

lemma show_int_no_comma: "comma \<notin> set (show_int i)"
  using show_nat_chars [of "nat i"] show_nat_chars [of "nat (- i)"]
  by (auto simp: show_int_def comma_def)

lemma takeWhile_up_to:
  "c \<notin> set xs \<Longrightarrow> takeWhile (\<lambda>x. x \<noteq> c) (xs @ c # ys) = xs"
  by (induction xs) auto

lemma dropWhile_up_to:
  "c \<notin> set xs \<Longrightarrow> dropWhile (\<lambda>x. x \<noteq> c) (xs @ c # ys) = c # ys"
  by (induction xs) auto

lemma row_count_row: "row_count (row e) = sint (snd e)"
proof -
  have "comma \<notin> set (rev (show_int (sint (snd e))))"
    by (simp add: show_int_no_comma)
  from takeWhile_up_to [OF this, of "rev (fst e)"] show ?thesis
    by (simp add: row_count_def row_def read_int_show_int)
qed

lemma row_address_row: "row_address (row e) = fst e"
proof -
  have "comma \<notin> set (rev (show_int (sint (snd e))))"
    by (simp add: show_int_no_comma)
  from dropWhile_up_to [OF this, of "rev (fst e)"] show ?thesis
    by (simp add: row_address_def row_def)
qed

section \<open>Properties of the address frequency counter\<close>

text \<open>
  Claim C1 says that on a well-formed input file (a header line followed by data lines,
  each with a comma) the counts of the table, and the counts written to the output file,
  sum to twice the number of data lines, the keys being the addresses of the records.
  The program breaks this on every such file that ends with a newline, through the slip
  of claim C2: the loop tests \<open>eof()\<close> before reading and so processes one more, empty,
  record, and the sum is 2 too large (lemma \<open>final_newline_adds_two\<close>). At the file of
  a header line and the one data line \<open>A,B\<close>, each ended by a newline: the file has 1
  data line, which contains a comma; the table becomes \<open>A: 1\<close>, \<open>B: 1\<close> and the empty
  key with count 2, a key that is an address of no record; the counts of the table sum
  to 4, not 2; the output file holds three data rows whose counts, read back from the
  text of the file, are 1, 1 and 2, again 4 and not 2. On files that do not end with a
  newline the claim holds (lemma \<open>claims_hold_without_final_newline\<close>).
\<close>

theorem counts_sum_with_final_newline:
  "data_rows ''addr,count\<newline>A,B\<newline>'' = [''A,B''] \<and>
   comma \<in> set ''A,B'' \<and>
   aggregate (Some ''addr,count\<newline>A,B\<newline>'') =
     Some (Inr [(''A'', 1), (''B'', 1), ([], 2)]) \<and>
   total_count [(''A'', 1), (''B'', 1), ([], 2)] = 4 \<and>
   total_count [(''A'', 1), (''B'', 1), ([], 2)] \<noteq>
     2 * int (length (data_rows ''addr,count\<newline>A,B\<newline>'')) \<and>
   [] \<notin> set (spec_addresses (data_rows ''addr,count\<newline>A,B\<newline>'')) \<and>
   get_address_freq_main id (Some ''addr,count\<newline>A,B\<newline>'') =
     Some (Exited 0 [Cout ''3\<newline>'', Fout_open, Fout ''address,count\<newline>'',
                     Fout ''A,1\<newline>'', Fout ''B,1\<newline>'', Fout '',2\<newline>'']) \<and>
   file_after None [Cout ''3\<newline>'', Fout_open, Fout ''address,count\<newline>'',
                    Fout ''A,1\<newline>'', Fout ''B,1\<newline>'', Fout '',2\<newline>''] =
     Some ''address,count\<newline>A,1\<newline>B,1\<newline>,2\<newline>'' \<and>
   map row_count (data_rows ''address,count\<newline>A,1\<newline>B,1\<newline>,2\<newline>'') = [1, 1, 2] \<and>
   sum_list (map row_count (data_rows ''address,count\<newline>A,1\<newline>B,1\<newline>,2\<newline>'')) \<noteq>
     2 * int (length (data_rows ''addr,count\<newline>A,B\<newline>''))"
proof -
  have d: "data_rows ''addr,count\<newline>A,B\<newline>'' = [''A,B'']"
    by (simp add: data_rows_def newline_def)
  have c: "comma \<in> set ''A,B''" by (simp add: comma_def)
  have a: "aggregate (Some ''addr,count\<newline>A,B\<newline>'') =
      Some (Inr [(''A'', 1), (''B'', 1), ([], 2)])"
    by (simp add: run_simps)
  have t: "total_count [(''A'', 1), (''B'', 1), ([], 2)] = 4"
    by (simp add: total_count_def)
  have t': "total_count [(''A'', 1), (''B'', 1), ([], 2)] \<noteq>
     2 * int (length (data_rows ''addr,count\<newline>A,B\<newline>''))"
    by (simp add: t d)
  have s: "[] \<notin> set (spec_addresses (data_rows ''addr,count\<newline>A,B\<newline>''))"
    by (simp add: d spec_addresses_def spec_record_def comma_def)
  have m: "get_address_freq_main id (Some ''addr,count\<newline>A,B\<newline>'') =
     Some (Exited 0 [Cout ''3\<newline>'', Fout_open, Fout ''address,count\<newline>'',
                     Fout ''A,1\<newline>'', Fout ''B,1\<newline>'', Fout '',2\<newline>''])"
    by (simp add: main_simps)
  have f: "file_after None [Cout ''3\<newline>'', Fout_open, Fout ''address,count\<newline>'',
                    Fout ''A,1\<newline>'', Fout ''B,1\<newline>'', Fout '',2\<newline>''] =
     Some ''address,count\<newline>A,1\<newline>B,1\<newline>,2\<newline>''"
    by simp
  have r: "data_rows ''address,count\<newline>A,1\<newline>B,1\<newline>,2\<newline>'' = [''A,1'', ''B,1'', '',2'']"
    by (simp add: data_rows_def newline_def)
  have rc: "map row_count (data_rows ''address,count\<newline>A,1\<newline>B,1\<newline>,2\<newline>'') = [1, 1, 2]"
    unfolding r by (simp add: read_simps)
  have rs: "sum_list (map row_count (data_rows ''address,count\<newline>A,1\<newline>B,1\<newline>,2\<newline>'')) \<noteq>
     2 * int (length (data_rows ''addr,count\<newline>A,B\<newline>''))"
    unfolding rc d by simp
  from d c a t t' s m f rc rs show ?thesis by (intro conjI)
qed

text \<open>
  Claim C2 asks that the loop process exactly the data lines of the file, with no extra
  empty record when the last data line ends with a newline. The loop tests \<open>eof()\<close>
  before reading, and after the last newline \<open>eofbit\<close> is still clear: one more
  \<open>getline\<close> runs, returns the empty string, and the body counts the empty address
  twice (\<open>processed_lines_trailing_newline\<close> states this for every file ending in a
  newline). At the input of one header line and the single data line \<open>A,B\<close>, each
  ended by a newline: the file has one data line, the loop processes two, the table
  gets the empty key with count 2 and the program reports 3 addresses.
\<close>

theorem trailing_newline_extra_record:
  "data_rows ''addr,count\<newline>A,B\<newline>'' = [''A,B''] \<and>
   processed_lines (Some ''addr,count\<newline>A,B\<newline>'') = Some [''A,B'', []] \<and>
   aggregate (Some ''addr,count\<newline>A,B\<newline>'') =
     Some (Inr [(''A'', 1), (''B'', 1), ([], 2)]) \<and>
   get_address_freq_main id (Some ''addr,count\<newline>A,B\<newline>'') =
     Some (Exited 0 [Cout ''3\<newline>'', Fout_open, Fout ''address,count\<newline>'',
                     Fout ''A,1\<newline>'', Fout ''B,1\<newline>'', Fout '',2\<newline>''])"
proof -
  have "data_rows ''addr,count\<newline>A,B\<newline>'' = [''A,B'']"
    by (simp add: data_rows_def newline_def)
  moreover have "processed_lines (Some ''addr,count\<newline>A,B\<newline>'') = Some [''A,B'', []]"
    by (simp add: run_simps)
  moreover have "aggregate (Some ''addr,count\<newline>A,B\<newline>'') =
      Some (Inr [(''A'', 1), (''B'', 1), ([], 2)])"
    by (simp add: run_simps)
  moreover have "get_address_freq_main id (Some ''addr,count\<newline>A,B\<newline>'') =
     Some (Exited 0 [Cout ''3\<newline>'', Fout_open, Fout ''address,count\<newline>'',
                     Fout ''A,1\<newline>'', Fout ''B,1\<newline>'', Fout '',2\<newline>''])"
    by (simp add: get_address_freq_main_def run_simps report_def row_def show_int_def
        show_nat.simps digit_def)
  ultimately show ?thesis by (intro conjI)
qed

lemma example_table:
  "aggregate (Some ''addr,count\<newline>A,B\<newline>A,C'') =
     Some (Inr [(''A'', 2), (''B'', 1), (''C'', 1)])"
  by (simp add: run_simps)

lemma example_rows:
  "map row [(''A'', 2), (''B'', 1), (''C'', 1)] = [''A,2'', ''B,1'', ''C,1'']"
  by (simp add: row_def show_int_def show_nat.simps digit_def comma_def)

text \<open>
  The same example when the last line also ends with a newline: a fourth entry appears
  (the defect of claim C2).
\<close>

lemma example_table_final_newline:
  "aggregate (Some ''addr,count\<newline>A,B\<newline>A,C\<newline>'') =
     Some (Inr [(''A'', 2), (''B'', 1), (''C'', 1), ([], 2)])"
  by (simp add: run_simps)

text \<open>
  When the last data line is not followed by a newline, the example gives exactly the
  three expected rows, for every traversal order of the table and whatever the output
  file held before.
\<close>

lemma example_rows_without_final_newline:
  assumes "is_iteration_order tr"
  shows "\<exists>evs t.
           get_address_freq_main tr (Some ''addr,count\<newline>A,B\<newline>A,C'') = Some (Exited 0 evs) \<and>
           file_after prev evs = Some t \<and>
           mset (data_rows t) = {#''A,2'', ''B,1'', ''C,1''#}"
proof -
  let ?m = "[(''A'', 2), (''B'', 1), (''C'', 1)] :: table"
  have "\<forall>k\<in>fst ` set ?m. newline \<notin> set k" by (simp add: newline_def)
  from data_rows_report [OF assms this, of prev] obtain t where
    t: "file_after prev (report tr ?m) = Some t"
      "text_lines t = ''address,count'' # map row (tr ?m)"
    by (elim exE conjE)
  have "mset (data_rows t) = mset (map row ?m)"
    using t(2) iteration_order_map [OF assms, of row ?m] by (simp add: data_rows_def)
  then have "mset (data_rows t) = {#''A,2'', ''B,1'', ''C,1''#}"
    by (simp only: example_rows) simp
  with main_Inr [OF example_table, of tr] t(1) show ?thesis
    by (intro exI [of _ "report tr ?m"] exI [of _ t] conjI)
qed

text \<open>
  Claim C3 says that for the input file of a header line followed by the two data lines
  \<open>A,B\<close> and \<open>A,C\<close> the data rows of the output file are exactly \<open>A,2\<close>, \<open>B,1\<close> and
  \<open>C,1\<close>. With each of the three lines ended by a newline, the program, through the
  slip of claim C2, processes one more, empty, record: the file has the two data lines,
  the table gets a fourth entry (the empty key with count 2), the program prints 4 and
  the output file has the four data rows \<open>A,2\<close>, \<open>B,1\<close>, \<open>C,1\<close> and \<open>,2\<close>, which are
  not the three expected rows in any order.
\<close>

theorem example_with_final_newline:
  "data_rows ''addr,count\<newline>A,B\<newline>A,C\<newline>'' = [''A,B'', ''A,C''] \<and>
   aggregate (Some ''addr,count\<newline>A,B\<newline>A,C\<newline>'') =
     Some (Inr [(''A'', 2), (''B'', 1), (''C'', 1), ([], 2)]) \<and>
   get_address_freq_main id (Some ''addr,count\<newline>A,B\<newline>A,C\<newline>'') =
     Some (Exited 0 [Cout ''4\<newline>'', Fout_open, Fout ''address,count\<newline>'',
                     Fout ''A,2\<newline>'', Fout ''B,1\<newline>'', Fout ''C,1\<newline>'',
                     Fout '',2\<newline>'']) \<and>
   file_after None [Cout ''4\<newline>'', Fout_open, Fout ''address,count\<newline>'',
                    Fout ''A,2\<newline>'', Fout ''B,1\<newline>'', Fout ''C,1\<newline>'',
                    Fout '',2\<newline>''] =
     Some ''address,count\<newline>A,2\<newline>B,1\<newline>C,1\<newline>,2\<newline>'' \<and>
   data_rows ''address,count\<newline>A,2\<newline>B,1\<newline>C,1\<newline>,2\<newline>'' =
     [''A,2'', ''B,1'', ''C,1'', '',2''] \<and>
   mset (data_rows ''address,count\<newline>A,2\<newline>B,1\<newline>C,1\<newline>,2\<newline>'') \<noteq>
     {#''A,2'', ''B,1'', ''C,1''#}"
proof -
  have d: "data_rows ''addr,count\<newline>A,B\<newline>A,C\<newline>'' = [''A,B'', ''A,C'']"
    by (simp add: data_rows_def newline_def)
  have a: "aggregate (Some ''addr,count\<newline>A,B\<newline>A,C\<newline>'') =
     Some (Inr [(''A'', 2), (''B'', 1), (''C'', 1), ([], 2)])"
    by (simp add: run_simps)
  have m: "get_address_freq_main id (Some ''addr,count\<newline>A,B\<newline>A,C\<newline>'') =
     Some (Exited 0 [Cout ''4\<newline>'', Fout_open, Fout ''address,count\<newline>'',
                     Fout ''A,2\<newline>'', Fout ''B,1\<newline>'', Fout ''C,1\<newline>'',
                     Fout '',2\<newline>''])"
    by (simp add: main_simps)
  have f: "file_after None [Cout ''4\<newline>'', Fout_open, Fout ''address,count\<newline>'',
                    Fout ''A,2\<newline>'', Fout ''B,1\<newline>'', Fout ''C,1\<newline>'',
                    Fout '',2\<newline>''] =
     Some ''address,count\<newline>A,2\<newline>B,1\<newline>C,1\<newline>,2\<newline>''"
    by simp
  have r: "data_rows ''address,count\<newline>A,2\<newline>B,1\<newline>C,1\<newline>,2\<newline>'' =
     [''A,2'', ''B,1'', ''C,1'', '',2'']"
    by (simp add: data_rows_def newline_def)
  have "size (mset [''A,2'', ''B,1'', ''C,1'', '',2'']) \<noteq> size {#''A,2'', ''B,1'', ''C,1''#}"
    by simp
  then have "mset [''A,2'', ''B,1'', ''C,1'', '',2''] \<noteq> {#''A,2'', ''B,1'', ''C,1''#}"
    by (rule contrapos_nn) (erule arg_cong)
  then have n: "mset (data_rows ''address,count\<newline>A,2\<newline>B,1\<newline>C,1\<newline>,2\<newline>'') \<noteq>
     {#''A,2'', ''B,1'', ''C,1''#}"
    unfolding r .
  from d a m f r n show ?thesis by (intro conjI)
qed

lemma card_keys: "distinct (map fst m) \<Longrightarrow> card (fst ` set m) = length m"
  using distinct_card [of "map fst m"] by simp

text \<open>
  Claim C4 says that for every valid two-field input the number of data rows written,
  and the number printed before the output file is written, equal the number of distinct
  addresses across both columns of the records. The program breaks this on valid files
  that end with a newline, through the slip of claim C2: the empty record it processes
  after the last line adds the empty string as an address. At the file of a header line
  and the one data line \<open>A,B\<close>, each ended by a newline: the one record has the two
  distinct addresses \<open>A\<close> and \<open>B\<close> (the line split at its first comma, as the
  specification defines a record); the program prints 3, then writes the output file,
  which has 3 data rows, not 2. On files that do not end with a newline the claim holds
  (lemma \<open>claims_hold_without_final_newline\<close>).
\<close>

theorem rows_exceed_distinct_addresses:
  "data_rows ''addr,count\<newline>A,B\<newline>'' = [''A,B''] \<and>
   comma \<in> set ''A,B'' \<and>
   spec_addresses (data_rows ''addr,count\<newline>A,B\<newline>'') = [''A'', ''B''] \<and>
   card (set (spec_addresses (data_rows ''addr,count\<newline>A,B\<newline>''))) = 2 \<and>
   get_address_freq_main id (Some ''addr,count\<newline>A,B\<newline>'') =
     Some (Exited 0 [Cout ''3\<newline>'', Fout_open, Fout ''address,count\<newline>'',
                     Fout ''A,1\<newline>'', Fout ''B,1\<newline>'', Fout '',2\<newline>'']) \<and>
   console [Cout ''3\<newline>'', Fout_open, Fout ''address,count\<newline>'',
            Fout ''A,1\<newline>'', Fout ''B,1\<newline>'', Fout '',2\<newline>''] = ''3\<newline>'' \<and>
   file_after None [Cout ''3\<newline>'', Fout_open, Fout ''address,count\<newline>'',
                    Fout ''A,1\<newline>'', Fout ''B,1\<newline>'', Fout '',2\<newline>''] =
     Some ''address,count\<newline>A,1\<newline>B,1\<newline>,2\<newline>'' \<and>
   length (data_rows ''address,count\<newline>A,1\<newline>B,1\<newline>,2\<newline>'') = 3 \<and>
   length (data_rows ''address,count\<newline>A,1\<newline>B,1\<newline>,2\<newline>'') \<noteq>
     card (set (spec_addresses (data_rows ''addr,count\<newline>A,B\<newline>'')))"
proof -
  have d: "data_rows ''addr,count\<newline>A,B\<newline>'' = [''A,B'']"
    by (simp add: data_rows_def newline_def)
  have c: "comma \<in> set ''A,B''" by (simp add: comma_def)
  have s: "spec_addresses (data_rows ''addr,count\<newline>A,B\<newline>'') = [''A'', ''B'']"
    by (simp add: d spec_addresses_def spec_record_def comma_def)
  have k: "card (set (spec_addresses (data_rows ''addr,count\<newline>A,B\<newline>''))) = 2"
    unfolding s length_remdups_card_conv [symmetric] by simp
  have m: "get_address_freq_main id (Some ''addr,count\<newline>A,B\<newline>'') =
     Some (Exited 0 [Cout ''3\<newline>'', Fout_open, Fout ''address,count\<newline>'',
                     Fout ''A,1\<newline>'', Fout ''B,1\<newline>'', Fout '',2\<newline>''])"
    by (simp add: main_simps)
  have o: "console [Cout ''3\<newline>'', Fout_open, Fout ''address,count\<newline>'',
            Fout ''A,1\<newline>'', Fout ''B,1\<newline>'', Fout '',2\<newline>''] = ''3\<newline>''"
    by simp
  have f: "file_after None [Cout ''3\<newline>'', Fout_open, Fout ''address,count\<newline>'',
                    Fout ''A,1\<newline>'', Fout ''B,1\<newline>'', Fout '',2\<newline>''] =
     Some ''address,count\<newline>A,1\<newline>B,1\<newline>,2\<newline>''"
    by simp
  have r: "length (data_rows ''address,count\<newline>A,1\<newline>B,1\<newline>,2\<newline>'') = 3"
    by (simp add: data_rows_def newline_def)
  have n: "length (data_rows ''address,count\<newline>A,1\<newline>B,1\<newline>,2\<newline>'') \<noteq>
     card (set (spec_addresses (data_rows ''addr,count\<newline>A,B\<newline>'')))"
    unfolding r k by simp
  from d c s k m o f r n show ?thesis by (intro conjI)
qed

section \<open>The frequency counter on input without a final newline\<close>

text \<open>
  Where the slip of claim C2 does not act, the program does what claims C1 and C4 say,
  measured with notions independent of it: the data lines are those of the file, a
  record is the line split at its first comma, and counts and addresses are read back
  from the text of the output file. For an input file of fewer than \<open>2 ^ 30\<close>
  characters that does not end with a newline and whose data lines all contain a comma,
  and for every traversal order: the keys of the table are the addresses of the records,
  each with a count of at least 1; the counts of the table and the counts written to the
  file both sum to twice the number of data lines; and the number printed, the number of
  data rows and the number of distinct addresses agree, the rows carrying exactly those
  addresses.
\<close>

lemma rows_read_back:
  "sum_list (map row_count (map row es)) = total_count es"
  "row_address ` set (map row es) = fst ` set es"
  by (simp_all add: total_count_def row_count_row row_address_row comp_def image_image)

lemma claims_hold_without_final_newline:
  assumes "length c < 2 ^ 30"
    and "c = [] \<or> last c \<noteq> newline"
    and "\<forall>l\<in>set (data_rows c). comma \<in> set l"
    and "is_iteration_order tr"
  shows "\<exists>m evs t.
           aggregate (Some c) = Some (Inr m) \<and>
           fst ` set m = set (spec_addresses (data_rows c)) \<and>
           (\<forall>a\<in>set (spec_addresses (data_rows c)). 1 \<le> sint (count_of m a)) \<and>
           total_count m = 2 * int (length (data_rows c)) \<and>
           get_address_freq_main tr (Some c) = Some (Exited 0 evs) \<and>
           console evs = show_nat (card (set (spec_addresses (data_rows c)))) @ [newline] \<and>
           file_after prev evs = Some t \<and>
           sum_list (map row_count (data_rows t)) = 2 * int (length (data_rows c)) \<and>
           length (data_rows t) = card (set (spec_addresses (data_rows c))) \<and>
           row_address ` set (data_rows t) = set (spec_addresses (data_rows c))"
proof -
  let ?ls = "tl (sep_lines c)"
  have ls: "?ls = data_rows c" using assms(2) by (rule processed_unterminated)
  have "\<forall>l\<in>set (data_rows c). comma \<in> set l \<and> length l < 2 ^ 31"
  proof
    fix l assume l: "l \<in> set (data_rows c)"
    then have "l \<in> set ?ls" by (simp only: ls)
    with assms(1) have "length l < 2 ^ 30" by (rule records_short)
    with assms(3) l show "comma \<in> set l \<and> length l < 2 ^ 31" by simp
  qed
  then have ad: "addresses (data_rows c) = spec_addresses (data_rows c)"
    by (rule addresses_spec)
  from aggregate_small [OF assms(1)] obtain m where
    m: "aggregate (Some c) = Some (Inr m)" "\<forall>e\<in>set m. 0 < sint (snd e)"
      "distinct (map fst m)" "total_count m = 2 * int (length ?ls)"
      "fst ` set m = set (addresses ?ls)" "length (addresses ?ls) = 2 * length ?ls"
      "\<forall>k\<in>fst ` set m. newline \<notin> set k"
    by (elim exE conjE)
  from data_rows_report [OF assms(4) m(7), of prev] obtain t where
    t: "file_after prev (report tr m) = Some t" "text_lines t = ''address,count'' # map row (tr m)"
    by (elim exE conjE)
  have keys: "fst ` set m = set (spec_addresses (data_rows c))"
    using m(5) by (simp only: ls ad)
  have pos: "\<forall>a\<in>set (spec_addresses (data_rows c)). 1 \<le> sint (count_of m a)"
    using count_of_positive [OF m(2)] keys by blast
  have tot: "total_count m = 2 * int (length (data_rows c))"
    using m(4) by (simp only: ls)
  have n: "length m = card (set (spec_addresses (data_rows c)))"
    using card_keys [OF m(3)] keys by simp
  have con: "console (report tr m) =
      show_nat (card (set (spec_addresses (data_rows c)))) @ [newline]"
    by (simp add: console_report n)
  have rows: "data_rows t = map row (tr m)"
    by (simp add: data_rows_def t(2))
  have "total_count (tr m) = total_count m"
    using assms(4) by (intro total_count_mset) (simp add: is_iteration_order_def)
  then have sum: "sum_list (map row_count (data_rows t)) = 2 * int (length (data_rows c))"
    unfolding rows rows_read_back(1) using tot by simp
  have len: "length (data_rows t) = card (set (spec_addresses (data_rows c)))"
    unfolding rows using n by (simp add: iteration_order_length [OF assms(4)])
  have adr: "row_address ` set (data_rows t) = set (spec_addresses (data_rows c))"
    unfolding rows rows_read_back(2) using keys by (simp add: iteration_order_set [OF assms(4)])
  from m(1) keys pos tot main_Inr [OF m(1), of tr] con t(1) sum len adr
  show ?thesis
    by (intro exI [of _ m] exI [of _ "report tr m"] exI [of _ t] conjI)
qed

section \<open>Further properties of the address frequency counter\<close>





text \<open>
  Claim C9. For a line without a comma (of a length a \<open>std::string\<close> can have):
  \<open>find_first_of\<close> yields \<open>npos\<close>, the \<open>int\<close> holding it reads \<open>-1\<close>, both field
  extractions return the whole line, in the helper functions and in the loop body, and
  nothing is thrown: the body returns a table in which the line is a key, no other key
  was added, every other count is unchanged, and the count of the line is 2 more than
  before (the count before being below \<open>INT_MAX - 1\<close>, as signed overflow is undefined).
\<close>

theorem line_without_comma:
  assumes "comma \<notin> set l" and "length l < 2 ^ 64" and "sint (count_of m l) < 2 ^ 31 - 2"
  shows "find_first_of l comma = npos \<and>
         sint (line_pos l) = - 1 \<and>
         first_field l = Inr l \<and>
         second_field l = Inr l \<and>
         get_first_address l = Inr l \<and>
         get_second_address l = Inr l \<and>
         (\<exists>m'. process_line l m = Inr m' \<and>
            fst ` set m' = insert l (fst ` set m) \<and>
            length m' = (if l \<in> fst ` set m then length m else Suc (length m)) \<and>
            sint (count_of m' l) = sint (count_of m l) + 2 \<and>
            (\<forall>k. k \<noteq> l \<longrightarrow> count_of m' k = count_of m k))"
proof -
  let ?m' = "subscript_incr l (subscript_incr l m)"
  have np: "find_first_of l comma = npos"
    using assms(1) by (simp add: find_first_of_def)
  have "sint (ucast (- 1 :: 64 word) :: cint) = - 1" by code_simp
  then have pos: "sint (line_pos l) = - 1"
    by (simp add: line_pos_def np npos_def)
  have f1: "first_field l = Inr l" using assms(1,2) by (rule first_field_no_comma)
  have f2: "second_field l = Inr l" using assms(1,2) by (rule second_field_no_comma)
  have g1: "get_first_address l = Inr l" using assms(1,2) by (rule get_first_address_no_comma)
  have g2: "get_second_address l = Inr l" by (simp add: get_second_address_eq f2)
  have p: "process_line l m = Inr ?m'" by (rule process_line_Inr [OF f1 f2])
  have keys: "fst ` set ?m' = insert l (fst ` set m)"
    by (simp add: keys_subscript_incr)
  have len: "length ?m' = (if l \<in> fst ` set m then length m else Suc (length m))"
    by (simp add: length_subscript_incr keys_subscript_incr)
  have c1: "sint (count_of m l + 1) = sint (count_of m l) + 1"
    using assms(3) by (intro sint_succ) simp
  have "sint (count_of m l + 1 + 1) = sint (count_of m l + 1) + 1"
    using assms(3) c1 by (intro sint_succ) simp
  then have cnt: "sint (count_of ?m' l) = sint (count_of m l) + 2"
    using c1 by (simp add: count_of_subscript_incr)
  have others: "\<forall>k. k \<noteq> l \<longrightarrow> count_of ?m' k = count_of m k"
    by (simp add: count_of_subscript_incr)
  have "\<exists>m'. process_line l m = Inr m' \<and>
            fst ` set m' = insert l (fst ` set m) \<and>
            length m' = (if l \<in> fst ` set m then length m else Suc (length m)) \<and>
            sint (count_of m' l) = sint (count_of m l) + 2 \<and>
            (\<forall>k. k \<noteq> l \<longrightarrow> count_of m' k = count_of m k)"
    using p keys len cnt others by (intro exI [of _ ?m'] conjI)
  with np pos f1 f2 g1 g2 show ?thesis by (intro conjI)
qed

theorem line_without_comma_witness:
  "comma \<notin> set ''0xab'' \<and> length ''0xab'' < 2 ^ 64 \<and>
   sint (count_of [(''0xcd'', 1), (''0xab'', 5)] ''0xab'') < 2 ^ 31 - 2 \<and>
   first_field ''0xab'' = Inr ''0xab'' \<and> second_field ''0xab'' = Inr ''0xab'' \<and>
   process_line ''0xab'' [(''0xcd'', 1), (''0xab'', 5)] = Inr [(''0xcd'', 1), (''0xab'', 7)] \<and>
   sint (count_of [(''0xcd'', 1), (''0xab'', 7)] ''0xab'') =
     sint (count_of [(''0xcd'', 1), (''0xab'', 5)] ''0xab'') + 2"
proof -
  let ?m = "[(''0xcd'', 1), (''0xab'', 5)] :: table"
  have h1: "comma \<notin> set ''0xab''" by (simp add: comma_def)
  have h2: "length ''0xab'' < 2 ^ 64" by simp
  have h3: "sint (count_of ?m ''0xab'') < 2 ^ 31 - 2" by (simp add: count_of_def)
  from line_without_comma [OF h1 h2 h3] obtain m' where
    r: "first_field ''0xab'' = Inr ''0xab''" "second_field ''0xab'' = Inr ''0xab''"
      "process_line ''0xab'' ?m = Inr m'"
      "sint (count_of m' ''0xab'') = sint (count_of ?m ''0xab'') + 2"
    by (elim exE conjE)
  from r(3) r(1,2) have m': "m' = [(''0xcd'', 1), (''0xab'', 7)]"
    by (simp add: process_line_def)
  from h1 h2 h3 r show ?thesis unfolding m' by (intro conjI)
qed

lemma report_Nil:
  "is_iteration_order tr \<Longrightarrow>
     report tr [] = [Cout ''0\<newline>'', Fout_open, Fout ''address,count\<newline>'']"
  by (simp add: report_def iteration_order_Nil show_nat.simps digit_def newline_def)

lemma aggregate_empty_file: "aggregate (Some []) = Some (Inr [])"
  by (simp add: aggregate_eq)

lemma aggregate_header_only:
  assumes "newline \<notin> set h"
  shows "aggregate (Some h) = Some (Inr [])"
proof -
  from assms have "dropWhile (\<lambda>c. c \<noteq> newline) h = []" by auto
  from sep_lines_last [OF this] show ?thesis by (simp add: aggregate_eq)
qed

text \<open>
  Claim C6. When the input file cannot be opened, the loop does not run and the table
  stays empty; the program still finishes with status 0, what it prints is \<open>0\<close> and a
  newline and nothing else, and the output file it leaves has no data rows, whatever the
  file held before and whatever the traversal order.
\<close>

theorem unopened_input_gives_empty_result:
  assumes "is_iteration_order tr"
  shows "aggregate None = Some (Inr []) \<and>
         processed_lines None = Some [] \<and>
         (\<exists>evs t. get_address_freq_main tr None = Some (Exited 0 evs) \<and>
            console evs = ''0\<newline>'' \<and>
            file_after prev evs = Some t \<and>
            data_rows t = [])"
proof -
  let ?evs = "[Cout ''0\<newline>'', Fout_open, Fout ''address,count\<newline>'']"
  have a: "aggregate None = Some (Inr [])" by (rule aggregate_None)
  have p: "processed_lines None = Some []" by (simp add: processed_lines_def)
  have m: "get_address_freq_main tr None = Some (Exited 0 ?evs)"
    using main_Inr [OF a, of tr] report_Nil [OF assms] by simp
  have c: "console ?evs = ''0\<newline>''" by simp
  have f: "file_after prev ?evs = Some ''address,count\<newline>''" by simp
  have d: "data_rows ''address,count\<newline>'' = []"
    by (simp add: data_rows_def newline_def)
  have "\<exists>evs t. get_address_freq_main tr None = Some (Exited 0 evs) \<and>
            console evs = ''0\<newline>'' \<and>
            file_after prev evs = Some t \<and>
            data_rows t = []"
    using m c f d by (intro exI [of _ ?evs] exI [of _ "''address,count\<newline>''"] conjI)
  with a p show ?thesis by (intro conjI)
qed

theorem unopened_input_gives_empty_result_witness:
  "is_iteration_order (rev :: table \<Rightarrow> table) \<and>
   aggregate None = Some (Inr []) \<and>
   (\<exists>evs t. get_address_freq_main rev None = Some (Exited 0 evs) \<and>
      console evs = ''0\<newline>'' \<and>
      file_after (Some ''address,count\<newline>A,2\<newline>'') evs = Some t \<and>
      data_rows t = [])"
proof -
  have h: "is_iteration_order (rev :: table \<Rightarrow> table)"
    by (simp add: is_iteration_order_def)
  from unopened_input_gives_empty_result [OF h, of "Some ''address,count\<newline>A,2\<newline>''"] h
  show ?thesis by (elim conjE, intro conjI)
qed

text \<open>
  Claim C10. When the input file cannot be opened the program prints \<open>0\<close>, then creates
  or truncates the output file and writes the header line alone, and exits with status 0;
  the output file then holds exactly the header line, whatever it held before. A run on an
  empty input file, or on one holding only a header line without newline, has the very
  same outcome.
\<close>

theorem unopened_input_like_empty_input:
  assumes "is_iteration_order tr"
  shows "get_address_freq_main tr None =
           Some (Exited 0 [Cout ''0\<newline>'', Fout_open, Fout ''address,count\<newline>'']) \<and>
         file_after prev [Cout ''0\<newline>'', Fout_open, Fout ''address,count\<newline>''] =
           Some ''address,count\<newline>'' \<and>
         console [Cout ''0\<newline>'', Fout_open, Fout ''address,count\<newline>''] = ''0\<newline>'' \<and>
         get_address_freq_main tr (Some []) = get_address_freq_main tr None \<and>
         (\<forall>h. newline \<notin> set h \<longrightarrow>
            get_address_freq_main tr (Some h) = get_address_freq_main tr None)"
proof -
  let ?evs = "[Cout ''0\<newline>'', Fout_open, Fout ''address,count\<newline>'']"
  have m: "get_address_freq_main tr None = Some (Exited 0 ?evs)"
    using main_Inr [OF aggregate_None, of tr] report_Nil [OF assms] by simp
  have f: "file_after prev ?evs = Some ''address,count\<newline>''" by simp
  have c: "console ?evs = ''0\<newline>''" by simp
  have e: "get_address_freq_main tr (Some []) = get_address_freq_main tr None"
    by (simp add: get_address_freq_main_def aggregate_empty_file aggregate_None)
  have h: "\<forall>h. newline \<notin> set h \<longrightarrow>
            get_address_freq_main tr (Some h) = get_address_freq_main tr None"
    by (simp add: get_address_freq_main_def aggregate_header_only aggregate_None)
  from m f c e h show ?thesis by (intro conjI)
qed

theorem unopened_input_like_empty_input_witness:
  "is_iteration_order (id :: table \<Rightarrow> table) \<and>
   newline \<notin> set ''addr,count'' \<and>
   get_address_freq_main id None =
     Some (Exited 0 [Cout ''0\<newline>'', Fout_open, Fout ''address,count\<newline>'']) \<and>
   file_after None [Cout ''0\<newline>'', Fout_open, Fout ''address,count\<newline>''] =
     Some ''address,count\<newline>'' \<and>
   get_address_freq_main id (Some []) = get_address_freq_main id None \<and>
   get_address_freq_main id (Some ''addr,count'') = get_address_freq_main id None"
proof -
  have h1: "is_iteration_order (id :: table \<Rightarrow> table)"
    by (simp add: is_iteration_order_def)
  have h2: "newline \<notin> set ''addr,count''" by (simp add: newline_def)
  note r = unopened_input_like_empty_input [OF h1, of None]
  from r have a: "get_address_freq_main id None =
     Some (Exited 0 [Cout ''0\<newline>'', Fout_open, Fout ''address,count\<newline>''])"
    by (elim conjE)
  from r have b: "file_after None [Cout ''0\<newline>'', Fout_open, Fout ''address,count\<newline>''] =
     Some ''address,count\<newline>''"
    by (elim conjE)
  from r have c: "get_address_freq_main id (Some []) = get_address_freq_main id None"
    by (elim conjE)
  from r have "\<forall>h. newline \<notin> set h \<longrightarrow>
            get_address_freq_main id (Some h) = get_address_freq_main id None"
    by (elim conjE)
  from this [rule_format, OF h2]
  have d: "get_address_freq_main id (Some ''addr,count'') = get_address_freq_main id None" .
  from h1 h2 a b c d show ?thesis by (intro conjI)
qed

lemma aggregate_returns:
  "\<exists>r. aggregate input = Some r \<and>
     (\<forall>m. r = Inr m \<longrightarrow> (\<forall>k\<in>fst ` set m. newline \<notin> set k))"
proof (cases input)
  case None
  then show ?thesis by (simp add: aggregate_None)
next
  case (Some content)
  let ?r = "fold_lines (tl (sep_lines content)) []"
  have "\<forall>k\<in>fst ` set m. newline \<notin> set k" if "?r = Inr m" for m
    using fold_lines_keys [OF that] records_no_newline by simp
  then show ?thesis
    unfolding Some aggregate_eq by (intro exI [of _ ?r]) blast
qed

text \<open>
  Claim C7. Two runs on the same input, each with its own traversal order of the table,
  the second starting from the output file the first one left: either both end in the
  same uncaught exception and write nothing, or both exit with status 0, print the
  same text, and leave output files with the same header line and the same data rows up
  to their order. What the output file held before the first run plays no part.
\<close>

theorem rerun_same_output:
  assumes "is_iteration_order tr1" and "is_iteration_order tr2"
  shows "(\<exists>e. get_address_freq_main tr1 input = Some (Terminated e) \<and>
              get_address_freq_main tr2 input = Some (Terminated e)) \<or>
         (\<exists>evs1 evs2 t1 t2.
            get_address_freq_main tr1 input = Some (Exited 0 evs1) \<and>
            get_address_freq_main tr2 input = Some (Exited 0 evs2) \<and>
            console evs2 = console evs1 \<and>
            file_after prev evs1 = Some t1 \<and>
            file_after (Some t1) evs2 = Some t2 \<and>
            hd (text_lines t1) = ''address,count'' \<and>
            hd (text_lines t2) = ''address,count'' \<and>
            mset (data_rows t2) = mset (data_rows t1))"
proof -
  from aggregate_returns [of input] obtain r where
    r: "aggregate input = Some r"
      "\<forall>m. r = Inr m \<longrightarrow> (\<forall>k\<in>fst ` set m. newline \<notin> set k)"
    by (elim exE conjE)
  show ?thesis
  proof (cases r)
    case (Inl e)
    with r(1) have "aggregate input = Some (Inl e)" by simp
    from main_Inl [OF this, of tr1] main_Inl [OF this, of tr2] show ?thesis
      by (intro disjI1 exI [of _ e] conjI)
  next
    case (Inr m)
    with r(1) have a: "aggregate input = Some (Inr m)" by simp
    from r(2) Inr have keys: "\<forall>k\<in>fst ` set m. newline \<notin> set k" by simp
    from data_rows_report [OF assms(1) keys, of prev] obtain t1 where
      t1: "file_after prev (report tr1 m) = Some t1"
        "text_lines t1 = ''address,count'' # map row (tr1 m)"
      by (elim exE conjE)
    from data_rows_report [OF assms(2) keys, of "Some t1"] obtain t2 where
      t2: "file_after (Some t1) (report tr2 m) = Some t2"
        "text_lines t2 = ''address,count'' # map row (tr2 m)"
      by (elim exE conjE)
    have c: "console (report tr2 m) = console (report tr1 m)"
      by (simp add: console_report)
    have h1: "hd (text_lines t1) = ''address,count''" by (simp add: t1(2))
    have h2: "hd (text_lines t2) = ''address,count''" by (simp add: t2(2))
    have rows: "mset (data_rows t2) = mset (data_rows t1)"
      unfolding data_rows_def t1(2) t2(2)
      using iteration_order_map [OF assms(1), of row m] iteration_order_map [OF assms(2), of row m]
      by simp
    from main_Inr [OF a, of tr1] main_Inr [OF a, of tr2] c t1(1) t2(1) h1 h2 rows
    show ?thesis
      by (intro disjI2 exI [of _ "report tr1 m"] exI [of _ "report tr2 m"]
          exI [of _ t1] exI [of _ t2] conjI)
  qed
qed

theorem rerun_same_output_witness:
  "is_iteration_order (id :: table \<Rightarrow> table) \<and>
   is_iteration_order (rev :: table \<Rightarrow> table) \<and>
   get_address_freq_main id (Some ''addr,count\<newline>A,B\<newline>A,C'') =
     Some (Exited 0 [Cout ''3\<newline>'', Fout_open, Fout ''address,count\<newline>'',
                     Fout ''A,2\<newline>'', Fout ''B,1\<newline>'', Fout ''C,1\<newline>'']) \<and>
   get_address_freq_main rev (Some ''addr,count\<newline>A,B\<newline>A,C'') =
     Some (Exited 0 [Cout ''3\<newline>'', Fout_open, Fout ''address,count\<newline>'',
                     Fout ''C,1\<newline>'', Fout ''B,1\<newline>'', Fout ''A,2\<newline>'']) \<and>
   file_after None [Cout ''3\<newline>'', Fout_open, Fout ''address,count\<newline>'',
                    Fout ''A,2\<newline>'', Fout ''B,1\<newline>'', Fout ''C,1\<newline>''] =
     Some ''address,count\<newline>A,2\<newline>B,1\<newline>C,1\<newline>'' \<and>
   file_after (Some ''address,count\<newline>A,2\<newline>B,1\<newline>C,1\<newline>'')
              [Cout ''3\<newline>'', Fout_open, Fout ''address,count\<newline>'',
               Fout ''C,1\<newline>'', Fout ''B,1\<newline>'', Fout ''A,2\<newline>''] =
     Some ''address,count\<newline>C,1\<newline>B,1\<newline>A,2\<newline>'' \<and>
   mset (data_rows ''address,count\<newline>C,1\<newline>B,1\<newline>A,2\<newline>'') =
     mset (data_rows ''address,count\<newline>A,2\<newline>B,1\<newline>C,1\<newline>'')"
proof -
  let ?c = "''addr,count\<newline>A,B\<newline>A,C''"
  let ?E1 = "[Cout ''3\<newline>'', Fout_open, Fout ''address,count\<newline>'',
              Fout ''A,2\<newline>'', Fout ''B,1\<newline>'', Fout ''C,1\<newline>'']"
  let ?E2 = "[Cout ''3\<newline>'', Fout_open, Fout ''address,count\<newline>'',
              Fout ''C,1\<newline>'', Fout ''B,1\<newline>'', Fout ''A,2\<newline>'']"
  let ?T1 = "''address,count\<newline>A,2\<newline>B,1\<newline>C,1\<newline>''"
  let ?T2 = "''address,count\<newline>C,1\<newline>B,1\<newline>A,2\<newline>''"
  have h1: "is_iteration_order (id :: table \<Rightarrow> table)"
    by (simp add: is_iteration_order_def)
  have h2: "is_iteration_order (rev :: table \<Rightarrow> table)"
    by (simp add: is_iteration_order_def)
  have run1: "get_address_freq_main id (Some ?c) = Some (Exited 0 ?E1)"
    by (simp add: get_address_freq_main_def run_simps report_def row_def show_int_def
        show_nat.simps digit_def)
  have run2: "get_address_freq_main rev (Some ?c) = Some (Exited 0 ?E2)"
    by (simp add: get_address_freq_main_def run_simps report_def row_def show_int_def
        show_nat.simps digit_def)
  have f1: "file_after None ?E1 = Some ?T1" by simp
  have f2: "file_after (Some ?T1) ?E2 = Some ?T2" by simp
  from rerun_same_output [OF h1 h2, of "Some ?c" None]
  have rows: "mset (data_rows ?T2) = mset (data_rows ?T1)"
  proof
    assume "\<exists>e. get_address_freq_main id (Some ?c) = Some (Terminated e) \<and>
              get_address_freq_main rev (Some ?c) = Some (Terminated e)"
    then obtain e where "get_address_freq_main id (Some ?c) = Some (Terminated e)"
      by (elim exE conjE)
    with run1 show ?thesis by simp
  next
    assume "\<exists>evs1 evs2 t1 t2.
            get_address_freq_main id (Some ?c) = Some (Exited 0 evs1) \<and>
            get_address_freq_main rev (Some ?c) = Some (Exited 0 evs2) \<and>
            console evs2 = console evs1 \<and>
            file_after None evs1 = Some t1 \<and>
            file_after (Some t1) evs2 = Some t2 \<and>
            hd (text_lines t1) = ''address,count'' \<and>
            hd (text_lines t2) = ''address,count'' \<and>
            mset (data_rows t2) = mset (data_rows t1)"
    then obtain evs1 evs2 t1 t2 where a:
      "get_address_freq_main id (Some ?c) = Some (Exited 0 evs1)"
      "get_address_freq_main rev (Some ?c) = Some (Exited 0 evs2)"
      "file_after None evs1 = Some t1"
      "file_after (Some t1) evs2 = Some t2"
      "mset (data_rows t2) = mset (data_rows t1)"
      by (elim exE conjE)
    from a(1) have e1: "evs1 = ?E1"
      by (simp only: run1 option.inject outcome.inject simp_thms)
    from a(2) have e2: "evs2 = ?E2"
      by (simp only: run2 option.inject outcome.inject simp_thms)
    from a(3) have t1: "t1 = ?T1"
      by (simp only: e1 f1 option.inject)
    from a(4) have t2: "t2 = ?T2"
      by (simp only: e2 t1 f2 option.inject)
    from a(5) show ?thesis by (simp only: t1 t2)
  qed
  from h1 h2 run1 run2 f1 f2 rows show ?thesis by (intro conjI)
qed

lemma get_address_short:
  assumes "length l < 2 ^ 64"
  shows "get_address l = Inr (takeWhile (\<lambda>x. x \<noteq> comma) l)"
proof (cases "comma \<in> set l")
  case True
  from True assms show ?thesis
    unfolding get_address_eq by (rule get_first_address_comma)
next
  case False
  with assms show ?thesis
    by (simp add: get_address_eq get_first_address_no_comma takeWhile_no_comma)
qed

lemma set_insert_set: "set (set_insert a xs) = insert a (set xs)"
  by (auto simp: set_insert_def)

lemma set_insert_distinct: "distinct xs \<Longrightarrow> distinct (set_insert a xs)"
  by (simp add: set_insert_def)

lemma fold_addresses_result:
  assumes "\<forall>l\<in>set ls. length l < 2 ^ 64" and "distinct m"
  shows "\<exists>m'. fold_addresses ls m = Inr m' \<and> distinct m' \<and>
           set m' = set m \<union> (\<lambda>l. takeWhile (\<lambda>x. x \<noteq> comma) l) ` set ls"
  using assms
proof (induction ls arbitrary: m)
  case Nil
  then show ?case by simp
next
  case (Cons l ls)
  let ?a = "takeWhile (\<lambda>x. x \<noteq> comma) l"
  from Cons.prems(1) have "length l < 2 ^ 64" by simp
  then have g: "get_address l = Inr ?a" by (rule get_address_short)
  have d: "distinct (set_insert ?a m)" using Cons.prems(2) by (rule set_insert_distinct)
  from Cons.IH [OF _ d] Cons.prems(1) obtain m' where
    m': "fold_addresses ls (set_insert ?a m) = Inr m'" "distinct m'"
      "set m' = set (set_insert ?a m) \<union> (\<lambda>l. takeWhile (\<lambda>x. x \<noteq> comma) l) ` set ls"
    by auto
  have "fold_addresses (l # ls) m = Inr m'" by (simp add: g m'(1))
  moreover have "set m' = set m \<union> (\<lambda>l. takeWhile (\<lambda>x. x \<noteq> comma) l) ` set (l # ls)"
    using m'(3) by (auto simp: set_insert_set)
  ultimately show ?case using m'(2) by blast
qed

lemma read_data_main_Inr:
  "collect input = Some (Inr xs) \<Longrightarrow>
     read_data_main tr input = Some (Exited 0 (read_data_report tr xs))"
  by (simp add: read_data_main_def)

lemma takeWhile_chars: "set (takeWhile P l) \<subseteq> set l"
  by (auto dest: set_takeWhileD)

lemma iteration_order_distinct:
  "is_iteration_order tr \<Longrightarrow> distinct (tr xs) = distinct xs"
  by (metis is_iteration_order_def mset_eq_imp_distinct_iff)

section \<open>Properties of the deduplication tool\<close>

text \<open>
  The lines the loop processes are the data lines of the file and, when the file ends
  with a newline, one more empty line (the read loop is the one of the frequency
  counter).
\<close>

lemma processed_and_data_lines:
  "set (tl (sep_lines c)) =
     set (data_rows c) \<union> (if c \<noteq> [] \<and> last c = newline then {[]} else {})"
proof (cases "c = []")
  case True
  then show ?thesis by (simp add: data_rows_def)
next
  case False
  then have "text_lines c \<noteq> []" by (rule text_lines_not_Nil)
  with False show ?thesis
    by (simp add: sep_lines_text_lines data_rows_def)
qed

lemma data_lines_processed: "set (data_rows c) \<subseteq> set (tl (sep_lines c))"
  by (simp add: processed_and_data_lines)

lemma processed_line_cases:
  "l \<in> set (tl (sep_lines c)) \<Longrightarrow> l \<in> set (data_rows c) \<or> l = []"
  by (simp add: processed_and_data_lines split: if_splits)

text \<open>
  Claim C8 says the list written by \<open>read_data.cpp\<close> holds the distinct first-field
  addresses of its input, unique and sorted. The tool keeps the addresses in an
  \<open>unordered_set\<close> and writes them in the order the set is traversed; nothing sorts
  them, so no order of the rows is guaranteed (the counterexample is the last theorem
  of this section). Amended claim, proved here for every traversal order: the program
  finishes; the first line of its output file is the header \<open>contract_address\<close>; no
  data row is repeated; the first-field address of every data line of the input (the
  characters before its first comma, or the whole line when it has none) is a data row;
  and every non-empty data row is the first-field address of a data line of the input.
  The empty row that the extra pass of the loop adds on an input ending with a newline
  (lemma \<open>read_data_final_newline\<close>) is neither promised nor excluded.
\<close>

theorem contract_list_unique:
  assumes "is_iteration_order tr" and "length content < 2 ^ 64"
  shows "\<exists>evs t.
           read_data_main tr (Some content) = Some (Exited 0 evs) \<and>
           file_after prev evs = Some t \<and>
           hd (text_lines t) = ''contract_address'' \<and>
           distinct (data_rows t) \<and>
           (\<forall>l\<in>set (data_rows content).
              takeWhile (\<lambda>x. x \<noteq> comma) l \<in> set (data_rows t)) \<and>
           (\<forall>r\<in>set (data_rows t). r \<noteq> [] \<longrightarrow>
              r \<in> (\<lambda>l. takeWhile (\<lambda>x. x \<noteq> comma) l) ` set (data_rows content))"
proof -
  let ?ls = "tl (sep_lines content)"
  let ?ff = "\<lambda>l. takeWhile (\<lambda>x. x \<noteq> comma) l"
  have short: "\<forall>l\<in>set ?ls. length l < 2 ^ 64"
    using records_short [OF assms(2)] by blast
  have "distinct ([] :: string list)" by simp
  from fold_addresses_result [OF short this] obtain m where
    m: "fold_addresses ?ls [] = Inr m" "distinct m" "set m = ?ff ` set ?ls"
    by auto
  have c: "collect (Some content) = Some (Inr m)"
    by (simp add: collect_eq m(1))
  have "\<forall>a\<in>set m. newline \<notin> set a"
    using m(3) records_no_newline takeWhile_chars by fastforce
  then have "\<forall>a\<in>set (tr m). newline \<notin> set a"
    by (simp add: iteration_order_set [OF assms(1)])
  from text_lines_read_data_report [OF this]
  have tl: "text_lines (''contract_address'' @ newline # concat (map (\<lambda>a. a @ [newline]) (tr m)))
              = ''contract_address'' # tr m" .
  let ?t = "''contract_address'' @ newline # concat (map (\<lambda>a. a @ [newline]) (tr m))"
  have f: "file_after prev (read_data_report tr m) = Some ?t"
    by (rule file_after_read_data_report)
  have h: "hd (text_lines ?t) = ''contract_address''" by (simp only: tl list.sel)
  have rows: "set (data_rows ?t) = ?ff ` set ?ls"
    unfolding data_rows_def tl using m(3) by (simp add: iteration_order_set [OF assms(1)])
  have d: "distinct (data_rows ?t)"
    unfolding data_rows_def tl using m(2) by (simp add: iteration_order_distinct [OF assms(1)])
  have all: "\<forall>l\<in>set (data_rows content). ?ff l \<in> set (data_rows ?t)"
    unfolding rows using data_lines_processed [of content] by blast
  have only: "\<forall>r\<in>set (data_rows ?t). r \<noteq> [] \<longrightarrow> r \<in> ?ff ` set (data_rows content)"
  proof (intro ballI impI)
    fix r assume "r \<in> set (data_rows ?t)" and ne: "r \<noteq> []"
    then obtain l where l: "l \<in> set ?ls" "r = ?ff l" unfolding rows by blast
    from processed_line_cases [OF l(1)] l(2) ne show "r \<in> ?ff ` set (data_rows content)"
      by auto
  qed
  from read_data_main_Inr [OF c, of tr] f h d all only
  show ?thesis
    by (intro exI [of _ "read_data_report tr m"] exI [of _ ?t] conjI)
qed

lemmas read_data_simps =
  collect_eq get_address_short set_insert_def comma_def newline_def read_data_main_def
  read_data_report_def show_nat.simps digit_def

theorem contract_list_unique_witness:
  "is_iteration_order (rev :: string list \<Rightarrow> string list) \<and>
   length ''contract_address\<newline>B,x\<newline>A,y\<newline>B,z\<newline>'' < 2 ^ 64 \<and>
   data_rows ''contract_address\<newline>B,x\<newline>A,y\<newline>B,z\<newline>'' = [''B,x'', ''A,y'', ''B,z''] \<and>
   (\<exists>evs t.
      read_data_main rev (Some ''contract_address\<newline>B,x\<newline>A,y\<newline>B,z\<newline>'') =
        Some (Exited 0 evs) \<and>
      file_after None evs = Some t \<and>
      hd (text_lines t) = ''contract_address'' \<and>
      distinct (data_rows t) \<and>
      ''B'' \<in> set (data_rows t) \<and>
      ''A'' \<in> set (data_rows t) \<and>
      (\<forall>r\<in>set (data_rows t). r \<noteq> [] \<longrightarrow> r \<in> {''B'', ''A''}))"
proof -
  let ?c = "''contract_address\<newline>B,x\<newline>A,y\<newline>B,z\<newline>''"
  let ?ff = "\<lambda>l. takeWhile (\<lambda>x. x \<noteq> comma) l"
  have h1: "is_iteration_order (rev :: string list \<Rightarrow> string list)"
    by (simp add: is_iteration_order_def)
  have h2: "length ?c < 2 ^ 64" by simp
  have dl: "data_rows ?c = [''B,x'', ''A,y'', ''B,z'']"
    by (simp add: data_rows_def newline_def)
  have im: "?ff ` set [''B,x'', ''A,y'', ''B,z''] = {''B'', ''A''}"
    by (simp add: comma_def insert_commute)
  have fB: "?ff ''B,x'' = ''B''" and fA: "?ff ''A,y'' = ''A''"
    by (simp_all add: comma_def)
  from contract_list_unique [OF h1 h2, of None] obtain evs t where
    r: "read_data_main rev (Some ?c) = Some (Exited 0 evs)"
      "file_after None evs = Some t"
      "hd (text_lines t) = ''contract_address''"
      "distinct (data_rows t)"
      "\<forall>l\<in>set (data_rows ?c). ?ff l \<in> set (data_rows t)"
      "\<forall>r\<in>set (data_rows t). r \<noteq> [] \<longrightarrow> r \<in> ?ff ` set (data_rows ?c)"
    by (elim exE conjE)
  have "''B,x'' \<in> set (data_rows ?c)" "''A,y'' \<in> set (data_rows ?c)"
    by (simp_all only: dl list.set insert_iff simp_thms)
  with r(5) have "?ff ''B,x'' \<in> set (data_rows t)" "?ff ''A,y'' \<in> set (data_rows t)"
    by (simp_all only: Ball_def simp_thms)
  then have inB: "''B'' \<in> set (data_rows t)" and inA: "''A'' \<in> set (data_rows t)"
    by (simp_all only: fB fA)
  from r(6) have only: "\<forall>r\<in>set (data_rows t). r \<noteq> [] \<longrightarrow> r \<in> {''B'', ''A''}"
    by (simp only: dl im)
  have "\<exists>evs t.
      read_data_main rev (Some ?c) = Some (Exited 0 evs) \<and>
      file_after None evs = Some t \<and>
      hd (text_lines t) = ''contract_address'' \<and>
      distinct (data_rows t) \<and>
      ''B'' \<in> set (data_rows t) \<and>
      ''A'' \<in> set (data_rows t) \<and>
      (\<forall>r\<in>set (data_rows t). r \<noteq> [] \<longrightarrow> r \<in> {''B'', ''A''})"
    using r(1,2,3,4) inB inA only by (intro exI [of _ evs] exI [of _ t] conjI)
  with h1 h2 dl show ?thesis by (intro conjI)
qed

text \<open>
  On an input ending with a newline the extra pass of the loop (the slip of claim C2,
  which this tool shares) adds an empty row.
\<close>

lemma read_data_final_newline:
  "read_data_main id (Some ''contract_address\<newline>B,x\<newline>'') =
     Some (Exited 0 [Cout ''2\<newline>'', Fout_open, Fout ''contract_address\<newline>'',
                     Fout ''B\<newline>'', Fout ''\<newline>''])"
  by (simp add: read_data_simps)

text \<open>
  Claim C8 as stated fails: with the set traversed in insertion order, which the
  container is free to do, the input lines \<open>B,x\<close>, \<open>A,y\<close>, \<open>C,z\<close> give the rows
  \<open>B\<close>, \<open>A\<close>, \<open>C\<close>, sorted neither upwards nor downwards.
\<close>

theorem contract_list_not_sorted:
  "is_iteration_order (id :: string list \<Rightarrow> string list) \<and>
   read_data_main id (Some ''contract_address\<newline>B,x\<newline>A,y\<newline>C,z'') =
     Some (Exited 0 [Cout ''3\<newline>'', Fout_open, Fout ''contract_address\<newline>'',
                     Fout ''B\<newline>'', Fout ''A\<newline>'', Fout ''C\<newline>'']) \<and>
   file_after None [Cout ''3\<newline>'', Fout_open, Fout ''contract_address\<newline>'',
                    Fout ''B\<newline>'', Fout ''A\<newline>'', Fout ''C\<newline>''] =
     Some ''contract_address\<newline>B\<newline>A\<newline>C\<newline>'' \<and>
   data_rows ''contract_address\<newline>B\<newline>A\<newline>C\<newline>'' = [''B'', ''A'', ''C''] \<and>
   \<not> sorted [''B'', ''A'', ''C''] \<and>
   \<not> sorted (rev [''B'', ''A'', ''C''])"
proof -
  have "is_iteration_order (id :: string list \<Rightarrow> string list)"
    by (simp add: is_iteration_order_def)
  moreover have
    "read_data_main id (Some ''contract_address\<newline>B,x\<newline>A,y\<newline>C,z'') =
     Some (Exited 0 [Cout ''3\<newline>'', Fout_open, Fout ''contract_address\<newline>'',
                     Fout ''B\<newline>'', Fout ''A\<newline>'', Fout ''C\<newline>''])"
    by (simp add: read_data_simps)
  moreover have
    "file_after None [Cout ''3\<newline>'', Fout_open, Fout ''contract_address\<newline>'',
                    Fout ''B\<newline>'', Fout ''A\<newline>'', Fout ''C\<newline>''] =
     Some ''contract_address\<newline>B\<newline>A\<newline>C\<newline>''"
    by simp
  moreover have
    "data_rows ''contract_address\<newline>B\<newline>A\<newline>C\<newline>'' = [''B'', ''A'', ''C'']"
    by (simp add: data_rows_def newline_def)
  moreover have "\<not> sorted [''B'', ''A'', ''C'']"
    by (simp add: less_eq_char_def less_char_def)
  moreover have "\<not> sorted (rev [''B'', ''A'', ''C''])"
    by (simp add: less_eq_char_def less_char_def)
  ultimately show ?thesis by (intro conjI)
qed

end
